theory Spec2Isabelle
  imports Complex_Main
begin

section \<open>Python values used by the bot\<close>

text \<open>
  A Python \<^verbatim>\<open>str\<close> is a sequence of Unicode code points and \<^verbatim>\<open>len\<close> counts code
  points, so a string is a list of code-point numbers. \<open>lit\<close> turns an ASCII literal of
  the source into such a list.
\<close>

type_synonym pystr = "nat list"

definition lit :: "string \<Rightarrow> pystr" where
  "lit s = map of_char s"

text \<open>The characters \<^verbatim>\<open>str.strip()\<close> removes: those for which \<^verbatim>\<open>str.isspace\<close> holds.\<close>

definition py_isspace :: "nat \<Rightarrow> bool" where
  "py_isspace c \<longleftrightarrow>
     c \<in> {9, 10, 11, 12, 13, 28, 29, 30, 31, 32, 133, 160, 5760,
          8232, 8233, 8239, 8287, 12288} \<or> (8192 \<le> c \<and> c \<le> 8202)"

definition py_strip :: "pystr \<Rightarrow> pystr" where
  "py_strip s = rev (dropWhile py_isspace (rev (dropWhile py_isspace s)))"

text \<open>
  \<^verbatim>\<open>str.lower()\<close> on the ASCII letters. Python also lowers cased letters outside
  ASCII, but the source only compares a lowered string with the ASCII literals
  \<^verbatim>\<open>"quote tweet"\<close> and \<^verbatim>\<open>"none"\<close>, and no character outside ASCII lowers to a
  letter of these two literals, so the comparisons come out the same.
\<close>

definition lower_char :: "nat \<Rightarrow> nat" where
  "lower_char c = (if 65 \<le> c \<and> c \<le> 90 then c + 32 else c)"

definition py_lower :: "pystr \<Rightarrow> pystr" where
  "py_lower s = map lower_char s"

text \<open>
  \<^verbatim>\<open>s.split(sep)\<close> for a non-empty separator: scan from the left, cut at each
  occurrence of \<open>sep\<close> and continue after it. \<open>acc\<close> holds the current piece, reversed.
  Every separator of the source is a non-empty literal (Python raises \<^verbatim>\<open>ValueError\<close>
  for an empty one); here an empty separator never matches.
\<close>

fun split_from :: "pystr \<Rightarrow> pystr \<Rightarrow> pystr \<Rightarrow> pystr list" where
  "split_from sep acc [] = [rev acc]"
| "split_from sep acc (c # cs) =
     (if sep \<noteq> [] \<and> take (length sep) (c # cs) = sep
      then rev acc # split_from sep [] (drop (length sep) (c # cs))
      else split_from sep (c # acc) cs)"

definition py_split :: "pystr \<Rightarrow> pystr \<Rightarrow> pystr list" where
  "py_split sep s = split_from sep [] s"

text \<open>\<^verbatim>\<open>xs[i]\<close> for \<open>i \<ge> 0\<close>: \<open>None\<close> stands for the \<^verbatim>\<open>IndexError\<close>.\<close>

definition item :: "'a list \<Rightarrow> nat \<Rightarrow> 'a option" where
  "item xs i = (if i < length xs then Some (xs ! i) else None)"

text \<open>\<^verbatim>\<open>sep in s\<close>: the separator occurs somewhere in the string.\<close>

fun occurs_in :: "pystr \<Rightarrow> pystr \<Rightarrow> bool" where
  "occurs_in sep [] = (sep = [])"
| "occurs_in sep (c # cs) = (take (length sep) (c # cs) = sep \<or> occurs_in sep cs)"

text \<open>\<^verbatim>\<open>str(n)\<close> for an integer: decimal digits, with a minus sign when negative.\<close>

fun digits :: "nat \<Rightarrow> pystr" where
  "digits n = (if n < 10 then [48 + n] else digits (n div 10) @ [48 + n mod 10])"

declare digits.simps [simp del]

definition py_str :: "int \<Rightarrow> pystr" where
  "py_str i = (if i < 0 then 45 # digits (nat (- i)) else digits (nat i))"

text \<open>
  Identifiers are untyped in the source: the candidates carry integers, the platform
  answers \<^verbatim>\<open>create_tweet\<close> with whatever \<^verbatim>\<open>response.data.get("id")\<close> holds.
\<close>

datatype pyid = Id_int int | Id_str pystr

text \<open>Truthiness, as \<^verbatim>\<open>if x:\<close> tests it.\<close>

definition truthy :: "pystr option \<Rightarrow> bool" where
  "truthy v = (case v of None \<Rightarrow> False | Some s \<Rightarrow> s \<noteq> [])"

fun truthy_id :: "pyid option \<Rightarrow> bool" where
  "truthy_id None = False"
| "truthy_id (Some (Id_int n)) = (n \<noteq> 0)"
| "truthy_id (Some (Id_str s)) = (s \<noteq> [])"

text \<open>\<^verbatim>\<open>int(x)\<close> of a float: truncation toward zero.\<close>

definition py_int :: "real \<Rightarrow> int" where
  "py_int x = (if 0 \<le> x then \<lfloor>x\<rfloor> else \<lceil>x\<rceil>)"

section \<open>Exceptions and the answers of the external services\<close>

text \<open>
  The handlers of the source tell three kinds of exception apart:
  \<^verbatim>\<open>except (ConnectionError, tweepy.TweepyException)\<close> in the publisher,
  \<^verbatim>\<open>except Exception\<close> everywhere else, and what no handler catches
  (\<^verbatim>\<open>KeyboardInterrupt\<close>, \<^verbatim>\<open>SystemExit\<close>: \<^verbatim>\<open>BaseException\<close> outside \<^verbatim>\<open>Exception\<close>).
\<close>

datatype exn = Connection_or_Tweepy | Other_exception | Base_exception

definition is_Exception :: "exn \<Rightarrow> bool" where
  "is_Exception e \<longleftrightarrow> e \<noteq> Base_exception"

text \<open>
  One request: the prompt is built, \<^verbatim>\<open>chat.completions.create(...)\<close> is called and
  \<^verbatim>\<open>response.choices[0].message.content.strip()\<close> is read, all inside the \<^verbatim>\<open>try\<close> block
  of the calling function. Either an exception is raised (the request fails, or the answer
  has no text to strip) or the text is there, here not yet stripped.
\<close>

datatype completion = Raises exn | Content pystr

text \<open>One call \<^verbatim>\<open>client.create_tweet(...)\<close> followed by \<^verbatim>\<open>response.data.get("id")\<close>: the
  identifier found in the answer (\<open>None\<close> if it has none), or the exception raised.\<close>

datatype create_outcome = Created "pyid option" | Create_raises exn

section \<open>Data model\<close>

record tweet =
  tweet_id :: int
  original_tweet_id :: int
  author_username :: pystr
  tweet_text :: pystr
  media_urls :: "pystr list"
  image_descriptions :: "pystr list"
  engagement_metrics :: "(pystr \<times> int) list"
  created_at :: "pystr option"

text \<open>The dictionary \<^verbatim>\<open>context\<close> of \<^verbatim>\<open>handle_selected_tweet\<close>.\<close>

record reply_context =
  ctx_tweet :: tweet
  research_summary :: "pystr option"

text \<open>
  The dictionary a successful post returns. Its \<^verbatim>\<open>created_at\<close> is the clock reading
  and its \<^verbatim>\<open>author_username\<close> a constant; neither is read again.
\<close>

record posted =
  posted_id :: "pyid option"
  posted_text :: pystr

section \<open>The generative client (\<^verbatim>\<open>clients/openai_client.py\<close>)\<close>

definition ANALYSIS :: pystr where "ANALYSIS = lit ''### Analysis ###''"
definition RESPONSE :: pystr where "RESPONSE = lit ''### Response ###''"
definition DECISION :: pystr where "DECISION = lit ''### Decision ###''"
definition REPLY :: pystr where "REPLY = lit ''### Reply ###''"
definition TWEET :: pystr where "TWEET = lit ''### Tweet ###''"
definition THREAD :: pystr where "THREAD = lit ''### Thread ###''"

text \<open>
  The two-section answers of \<^verbatim>\<open>select_tweet\<close> and \<^verbatim>\<open>identify_research_topic\<close>:
  the analysis is parsed first (and dropped), then the text after the response marker.
  \<open>None\<close> is the \<^verbatim>\<open>IndexError\<close> of a missing marker.
\<close>

definition parse_response :: "pystr \<Rightarrow> pystr option" where
  "parse_response content =
     (case item (py_split ANALYSIS content) 1 of
        None \<Rightarrow> None
      | Some a \<Rightarrow>
          (case item (py_split RESPONSE content) 1 of
             None \<Rightarrow> None
           | Some r \<Rightarrow> Some (py_strip r)))"

definition select_tweet :: "completion \<Rightarrow> exn + pystr option" where
  "select_tweet answer =
     (case answer of
        Raises e \<Rightarrow> if is_Exception e then Inr None else Inl e
      | Content c \<Rightarrow>
          (case parse_response (py_strip c) of
             None \<Rightarrow> Inr None
           | Some selected_tweet_id \<Rightarrow>
               Inr (if py_lower selected_tweet_id \<noteq> lit ''none''
                    then Some selected_tweet_id else None)))"

definition identify_research_topic :: "completion \<Rightarrow> exn + pystr option" where
  "identify_research_topic answer =
     (case answer of
        Raises e \<Rightarrow> if is_Exception e then Inr None else Inl e
      | Content c \<Rightarrow>
          (case parse_response (py_strip c) of
             None \<Rightarrow> Inr None
           | Some research_topic \<Rightarrow>
               Inr (if py_lower research_topic \<noteq> lit ''none''
                    then Some research_topic else None)))"

definition decide_quote_or_reply :: "completion \<Rightarrow> exn + bool" where
  "decide_quote_or_reply answer =
     (case answer of
        Raises e \<Rightarrow> if is_Exception e then Inr False else Inl e
      | Content c \<Rightarrow>
          (case item (py_split DECISION (py_strip c)) 1 of
             None \<Rightarrow> Inr False
           | Some d \<Rightarrow> Inr (py_lower (py_strip d) = lit ''quote tweet'')))"

text \<open>
  One attempt of a generation loop ends in one of three ways: the loop goes on to the
  next attempt (an exception caught by \<^verbatim>\<open>except Exception\<close>, or a text that is too
  long), the function returns, or an exception no handler catches leaves the function.
\<close>

datatype 'a attempt = Retry | Return 'a | Propagate exn

text \<open>The parsing of \<^verbatim>\<open>generate_reply\<close>: analysis and reply text.\<close>

definition parse_reply :: "pystr \<Rightarrow> (pystr \<times> pystr) option" where
  "parse_reply content =
     (case item (py_split ANALYSIS content) 1 of
        None \<Rightarrow> None
      | Some a \<Rightarrow>
          (case item (py_split REPLY content) 1 of
             None \<Rightarrow> None
           | Some r \<Rightarrow> Some (py_strip (hd (py_split REPLY a)), py_strip r)))"

definition reply_attempt :: "completion \<Rightarrow> (pystr \<times> pystr) attempt" where
  "reply_attempt answer =
     (case answer of
        Raises e \<Rightarrow> if is_Exception e then Retry else Propagate e
      | Content c \<Rightarrow>
          (case parse_reply (py_strip c) of
             None \<Rightarrow> Retry
           | Some (analysis, response_text) \<Rightarrow>
               if length response_text > 280 then Retry
               else Return (analysis, response_text)))"

text \<open>
  \<^verbatim>\<open>generate_reply(context, max_attempts)\<close>. \<open>oracle i\<close> is the answer to the request
  of attempt \<open>i\<close>; the loop variable \<^verbatim>\<open>attempt\<close> starts at 0.
\<close>

function generate_reply_from ::
  "(nat \<Rightarrow> completion) \<Rightarrow> nat \<Rightarrow> nat \<Rightarrow> exn + (pystr option \<times> pystr option)" where
  "generate_reply_from oracle max_attempts attempt =
     (if attempt < max_attempts then
        (case reply_attempt (oracle attempt) of
           Retry \<Rightarrow> generate_reply_from oracle max_attempts (Suc attempt)
         | Return (analysis, response_text) \<Rightarrow> Inr (Some analysis, Some response_text)
         | Propagate e \<Rightarrow> Inl e)
      else Inr (None, None))"
  by pat_completeness auto
termination
  by (relation "measure (\<lambda>(oracle, max_attempts, attempt). max_attempts - attempt)") auto

declare generate_reply_from.simps [simp del]

definition generate_reply ::
  "(nat \<Rightarrow> completion) \<Rightarrow> nat \<Rightarrow> exn + (pystr option \<times> pystr option)" where
  "generate_reply oracle max_attempts = generate_reply_from oracle max_attempts 0"

text \<open>The parsing of \<^verbatim>\<open>generate_quote_tweet\<close>: analysis, main text and thread list.\<close>

definition thread_list_of :: "pystr \<Rightarrow> pystr list" where
  "thread_list_of thread_section =
     map py_strip (filter (\<lambda>tweet. py_strip tweet \<noteq> []) (py_split [10] thread_section))"

definition parse_quote :: "pystr \<Rightarrow> (pystr \<times> pystr \<times> pystr list) option" where
  "parse_quote content =
     (case item (py_split ANALYSIS content) 1 of
        None \<Rightarrow> None
      | Some a \<Rightarrow>
          (case item (py_split TWEET content) 1 of
             None \<Rightarrow> None
           | Some t \<Rightarrow>
               (case item (py_split THREAD content) 1 of
                  None \<Rightarrow> None
                | Some th \<Rightarrow>
                    Some (py_strip (hd (py_split TWEET a)),
                          py_strip (hd (py_split THREAD t)),
                          thread_list_of (py_strip th)))))"

definition quote_attempt :: "completion \<Rightarrow> (pystr \<times> pystr \<times> pystr list) attempt" where
  "quote_attempt answer =
     (case answer of
        Raises e \<Rightarrow> if is_Exception e then Retry else Propagate e
      | Content c \<Rightarrow>
          (case parse_quote (py_strip c) of
             None \<Rightarrow> Retry
           | Some (analysis, response_text, thread_list) \<Rightarrow>
               if length response_text > 280 then Retry
               else if list_ex (\<lambda>tweet. length tweet > 280) thread_list then Retry
               else Return (analysis, response_text, thread_list)))"

function generate_quote_tweet_from ::
  "(nat \<Rightarrow> completion) \<Rightarrow> nat \<Rightarrow> nat \<Rightarrow>
     exn + (pystr option \<times> pystr option \<times> pystr list)" where
  "generate_quote_tweet_from oracle max_attempts attempt =
     (if attempt < max_attempts then
        (case quote_attempt (oracle attempt) of
           Retry \<Rightarrow> generate_quote_tweet_from oracle max_attempts (Suc attempt)
         | Return (analysis, response_text, thread_list) \<Rightarrow>
             Inr (Some analysis, Some response_text, thread_list)
         | Propagate e \<Rightarrow> Inl e)
      else Inr (None, None, []))"
  by pat_completeness auto
termination
  by (relation "measure (\<lambda>(oracle, max_attempts, attempt). max_attempts - attempt)") auto

declare generate_quote_tweet_from.simps [simp del]

definition generate_quote_tweet ::
  "(nat \<Rightarrow> completion) \<Rightarrow> nat \<Rightarrow> exn + (pystr option \<times> pystr option \<times> pystr list)" where
  "generate_quote_tweet oracle max_attempts = generate_quote_tweet_from oracle max_attempts 0"

section \<open>The research client (\<^verbatim>\<open>clients/perplexity_client.py\<close>)\<close>

definition research_topic :: "completion \<Rightarrow> exn + pystr option" where
  "research_topic answer =
     (case answer of
        Raises e \<Rightarrow> if is_Exception e then Inr None else Inl e
      | Content c \<Rightarrow> Inr (Some (py_strip c)))"

section \<open>What a run does, as a list of events\<close>

text \<open>
  The keyword argument \<^verbatim>\<open>create_tweet\<close> is called with, the methods of the generative
  and research clients the scheduler calls, and the events a run leaves behind, in the
  order they happen. A \<open>Create_tweet\<close> event records the text, the target, the value of
  the loop variable \<^verbatim>\<open>attempt\<close> and what the platform answered; \<open>Post_result\<close> records
  the truth value of \<^verbatim>\<open>post_result\<close> when the posting call has returned.
\<close>

datatype target = Quote_tweet_id pyid | In_reply_to_tweet_id pyid

datatype client_method =
    Select_tweet | Identify_research_topic | Research_topic
  | Decide_quote_or_reply | Generate_quote_tweet | Generate_reply

datatype event =
    Fetch_tweets
  | Called client_method
  | Create_tweet pystr target nat create_outcome
  | Retry_sleep nat
  | Post_result bool
  | Cycle_error exn
  | Sleep int

section \<open>The publisher (\<^verbatim>\<open>clients/x_client.py\<close>)\<close>

text \<open>
  \<open>create k\<close> is the platform's answer to the \<open>k\<close>-th call of \<^verbatim>\<open>create_tweet\<close>
  (counted from 0). Each function takes the number of calls made so far and returns its
  result, the number of calls made afterwards and the events, in order.
\<close>

definition create_target :: "pyid \<Rightarrow> pyid option \<Rightarrow> target" where
  "create_target quote_tweet_id in_reply_to =
     (case in_reply_to of
        None \<Rightarrow> Quote_tweet_id quote_tweet_id
      | Some i \<Rightarrow>
          if truthy_id in_reply_to then In_reply_to_tweet_id i
          else Quote_tweet_id quote_tweet_id)"

function post_tweet_with_retry ::
  "(nat \<Rightarrow> create_outcome) \<Rightarrow> pyid \<Rightarrow> nat \<Rightarrow> nat \<Rightarrow> pystr \<Rightarrow> pyid option \<Rightarrow> nat \<Rightarrow> nat \<Rightarrow>
     (exn + posted option) \<times> nat \<times> event list" where
  "post_tweet_with_retry create quote_tweet_id retries delay txt in_reply_to k attempt =
     (if attempt < retries then
        (case create k of
           Created tid \<Rightarrow>
             (Inr (Some \<lparr>posted_id = tid, posted_text = txt\<rparr>), Suc k,
              [Create_tweet txt (create_target quote_tweet_id in_reply_to) attempt (Created tid)])
         | Create_raises e \<Rightarrow>
             if e = Connection_or_Tweepy then
               (case post_tweet_with_retry create quote_tweet_id retries delay txt in_reply_to
                       (Suc k) (Suc attempt) of
                  (r, k', evs) \<Rightarrow>
                    (r, k',
                     Create_tweet txt (create_target quote_tweet_id in_reply_to) attempt
                       (Create_raises e)
                     # (if attempt < retries - 1 then [Retry_sleep delay] else []) @ evs))
             else
               (Inl e, Suc k,
                [Create_tweet txt (create_target quote_tweet_id in_reply_to) attempt
                   (Create_raises e)]))
      else (Inr None, k, []))"
  by pat_completeness auto
termination
  by (relation "measure (\<lambda>(create, q, retries, delay, txt, irt, k, attempt). retries - attempt)")
     auto

declare post_tweet_with_retry.simps [simp del]

text \<open>
  The loop over \<^verbatim>\<open>thread\<close>: \<open>in_reply_to_tweet_id\<close> is the chain anchor and
  \<open>thread_tweets\<close> the results so far.
\<close>

fun post_thread ::
  "(nat \<Rightarrow> create_outcome) \<Rightarrow> pyid \<Rightarrow> nat \<Rightarrow> nat \<Rightarrow> pyid option \<Rightarrow> posted list \<Rightarrow> nat \<Rightarrow>
     pystr list \<Rightarrow> (exn + posted list) \<times> nat \<times> event list" where
  "post_thread create quote_tweet_id retries delay in_reply_to_tweet_id thread_tweets k [] =
     (Inr thread_tweets, k, [])"
| "post_thread create quote_tweet_id retries delay in_reply_to_tweet_id thread_tweets k
     (segment # rest) =
     (case post_tweet_with_retry create quote_tweet_id retries delay segment
             in_reply_to_tweet_id k 0 of
        (Inl e, k', evs) \<Rightarrow> (Inl e, k', evs)
      | (Inr (Some thread_tweet), k', evs) \<Rightarrow>
          (case post_thread create quote_tweet_id retries delay (posted_id thread_tweet)
                  (thread_tweets @ [thread_tweet]) k' rest of
             (r, k'', evs') \<Rightarrow> (r, k'', evs @ evs'))
      | (Inr None, k', evs) \<Rightarrow>
          (case post_thread create quote_tweet_id retries delay in_reply_to_tweet_id
                  thread_tweets k' rest of
             (r, k'', evs') \<Rightarrow> (r, k'', evs @ evs')))"

text \<open>
  \<^verbatim>\<open>post_quote_tweet\<close>: \<open>Inr None\<close> is the returned \<^verbatim>\<open>None\<close>, \<open>Inr (Some (main, thread))\<close>
  the returned pair, \<open>Inl e\<close> an exception that leaves the function.
\<close>

definition post_quote_tweet ::
  "(nat \<Rightarrow> create_outcome) \<Rightarrow> pyid \<Rightarrow> pystr \<Rightarrow> pystr list \<Rightarrow> nat \<Rightarrow> nat \<Rightarrow>
     (exn + (posted \<times> posted list) option) \<times> event list" where
  "post_quote_tweet create quote_tweet_id response_text thread max_retries retry_delay =
     (case post_tweet_with_retry create quote_tweet_id max_retries retry_delay response_text
             None 0 0 of
        (Inl e, k, evs) \<Rightarrow> (Inl e, evs)
      | (Inr None, k, evs) \<Rightarrow> (Inr None, evs)
      | (Inr (Some main_tweet), k, evs) \<Rightarrow>
          if thread \<noteq> [] then
            (case post_thread create quote_tweet_id max_retries retry_delay
                    (posted_id main_tweet) [] k thread of
               (Inl e, k', evs') \<Rightarrow> (Inl e, evs @ evs')
             | (Inr thread_tweets, k', evs') \<Rightarrow>
                 (Inr (Some (main_tweet, thread_tweets)), evs @ evs'))
          else (Inr (Some (main_tweet, [])), evs))"

function post_reply_from ::
  "(nat \<Rightarrow> create_outcome) \<Rightarrow> pyid \<Rightarrow> pystr \<Rightarrow> nat \<Rightarrow> nat \<Rightarrow> nat \<Rightarrow> nat \<Rightarrow>
     (exn + posted option) \<times> event list" where
  "post_reply_from create in_reply_to_tweet_id reply_text max_retries retry_delay k attempt =
     (if attempt < max_retries then
        (case create k of
           Created tid \<Rightarrow>
             (Inr (Some \<lparr>posted_id = tid, posted_text = reply_text\<rparr>),
              [Create_tweet reply_text (In_reply_to_tweet_id in_reply_to_tweet_id) attempt
                 (Created tid)])
         | Create_raises e \<Rightarrow>
             if e = Connection_or_Tweepy then
               (case post_reply_from create in_reply_to_tweet_id reply_text max_retries
                       retry_delay (Suc k) (Suc attempt) of
                  (r, evs) \<Rightarrow>
                    (r,
                     Create_tweet reply_text (In_reply_to_tweet_id in_reply_to_tweet_id) attempt
                       (Create_raises e)
                     # (if attempt < max_retries - 1 then [Retry_sleep retry_delay] else [])
                     @ evs))
             else
               (Inl e,
                [Create_tweet reply_text (In_reply_to_tweet_id in_reply_to_tweet_id) attempt
                   (Create_raises e)]))
      else (Inr None, []))"
  by pat_completeness auto
termination
  by (relation "measure (\<lambda>(create, t, txt, max_retries, delay, k, attempt). max_retries - attempt)")
     auto

declare post_reply_from.simps [simp del]

definition post_reply ::
  "(nat \<Rightarrow> create_outcome) \<Rightarrow> pyid \<Rightarrow> pystr \<Rightarrow> nat \<Rightarrow> nat \<Rightarrow> (exn + posted option) \<times> event list" where
  "post_reply create in_reply_to_tweet_id reply_text max_retries retry_delay =
     post_reply_from create in_reply_to_tweet_id reply_text max_retries retry_delay 0 0"

section \<open>The scheduler (\<^verbatim>\<open>core/bot.py\<close>)\<close>

text \<open>
  The state of the process: the global set \<^verbatim>\<open>processed_tweet_ids\<close> and the events so
  far. An exception leaves the state as it was when it was raised.
\<close>

record bot_state =
  processed_tweet_ids :: "int set"
  log :: "event list"

text \<open>
  What the external services do during one iteration of the loop: the list
  \<^verbatim>\<open>x_client.fetch_tweets\<close> returns (or the exception that escapes it), the answer to
  each request as a function of what its prompt is built from (and of the attempt, in the
  generation loops), the platform's answers to \<^verbatim>\<open>create_tweet\<close> in call order, the
  value \<^verbatim>\<open>random.uniform(-0.10, 0.10)\<close> returns, and whether the process is interrupted
  while it sleeps.
\<close>

record services =
  fetched :: "exn + tweet list"
  select_answer :: "tweet list \<Rightarrow> completion"
  topic_answer :: "reply_context \<Rightarrow> completion"
  research_answer :: "pystr \<Rightarrow> completion"
  decide_answer :: "reply_context \<Rightarrow> completion"
  quote_answers :: "reply_context \<Rightarrow> nat \<Rightarrow> completion"
  reply_answers :: "reply_context \<Rightarrow> nat \<Rightarrow> completion"
  create_tweet :: "nat \<Rightarrow> create_outcome"
  uniform :: real
  interrupted_in_sleep :: bool

definition logged :: "event list \<Rightarrow> bot_state \<Rightarrow> bot_state" where
  "logged evs s = s\<lparr>log := log s @ evs\<rparr>"

text \<open>Sequencing: an exception skips what follows, with the state it was raised in.\<close>

definition and_then ::
  "(exn + 'a) \<times> bot_state \<Rightarrow> ('a \<Rightarrow> bot_state \<Rightarrow> (exn + 'b) \<times> bot_state) \<Rightarrow>
     (exn + 'b) \<times> bot_state" where
  "and_then m f = (case m of (Inl e, s) \<Rightarrow> (Inl e, s) | (Inr x, s) \<Rightarrow> f x s)"

definition process_fetched_tweets ::
  "services \<Rightarrow> tweet list \<Rightarrow> bot_state \<Rightarrow>
     (exn + (tweet option \<times> tweet list option)) \<times> bot_state" where
  "process_fetched_tweets sv fetched_tweets s =
     (let unprocessed_tweets =
            filter (\<lambda>tweet. tweet_id tweet \<notin> processed_tweet_ids s) fetched_tweets
      in if unprocessed_tweets = [] then (Inr (None, None), s)
         else
           and_then
             (select_tweet (select_answer sv unprocessed_tweets), logged [Called Select_tweet] s)
             (\<lambda>selected_tweet_id s.
                if \<not> truthy selected_tweet_id then (Inr (None, None), s)
                else
                  (Inr (find (\<lambda>tweet. Some (py_str (tweet_id tweet)) = selected_tweet_id)
                          unprocessed_tweets,
                        Some unprocessed_tweets), s)))"

text \<open>
  \<^verbatim>\<open>research_summary or "No additional insights available."\<close>, and the research call
  that is made only for a truthy topic.
\<close>

definition or_placeholder :: "pystr option \<Rightarrow> pystr" where
  "or_placeholder summary =
     (case summary of
        None \<Rightarrow> lit ''No additional insights available.''
      | Some v \<Rightarrow> if v \<noteq> [] then v else lit ''No additional insights available.'')"

definition research ::
  "services \<Rightarrow> pystr option \<Rightarrow> bot_state \<Rightarrow> (exn + pystr option) \<times> bot_state" where
  "research sv topic s =
     (case topic of
        None \<Rightarrow> (Inr None, s)
      | Some q \<Rightarrow>
          if q \<noteq> [] then (research_topic (research_answer sv q), logged [Called Research_topic] s)
          else (Inr None, s))"

text \<open>
  The two branches on \<^verbatim>\<open>is_quote_tweet\<close>: generation (the analysis is dropped; the reply
  branch binds no thread) and posting (the result is the truthiness of \<^verbatim>\<open>post_result\<close>).
  Both client calls use the default budgets of their signatures.
\<close>

definition generate ::
  "services \<Rightarrow> reply_context \<Rightarrow> bool \<Rightarrow> bot_state \<Rightarrow>
     (exn + (pystr option \<times> pystr list)) \<times> bot_state" where
  "generate sv context is_quote_tweet s =
     (if is_quote_tweet then
        (case generate_quote_tweet (quote_answers sv context) 3 of
           Inl e \<Rightarrow> (Inl e, logged [Called Generate_quote_tweet] s)
         | Inr (analysis, response_text, thread) \<Rightarrow>
             (Inr (response_text, thread), logged [Called Generate_quote_tweet] s))
      else
        (case generate_reply (reply_answers sv context) 3 of
           Inl e \<Rightarrow> (Inl e, logged [Called Generate_reply] s)
         | Inr (analysis, response_text) \<Rightarrow>
             (Inr (response_text, []), logged [Called Generate_reply] s)))"

definition publish ::
  "services \<Rightarrow> tweet \<Rightarrow> bool \<Rightarrow> pystr \<Rightarrow> pystr list \<Rightarrow> bot_state \<Rightarrow>
     (exn + bool) \<times> bot_state" where
  "publish sv selected_tweet is_quote_tweet response_text thread s =
     (if is_quote_tweet then
        (case post_quote_tweet (create_tweet sv) (Id_int (tweet_id selected_tweet))
                response_text thread 4 15 of
           (Inl e, evs) \<Rightarrow> (Inl e, logged evs s)
         | (Inr post_result, evs) \<Rightarrow>
             (Inr (post_result \<noteq> None),
              logged (evs @ [Post_result (post_result \<noteq> None)]) s))
      else
        (case post_reply (create_tweet sv) (Id_int (tweet_id selected_tweet))
                response_text 4 15 of
           (Inl e, evs) \<Rightarrow> (Inl e, logged evs s)
         | (Inr post_result, evs) \<Rightarrow>
             (Inr (post_result \<noteq> None),
              logged (evs @ [Post_result (post_result \<noteq> None)]) s)))"

definition handle_selected_tweet ::
  "services \<Rightarrow> tweet option \<Rightarrow> bot_state \<Rightarrow> (exn + unit) \<times> bot_state" where
  "handle_selected_tweet sv selected s =
     (case selected of
        None \<Rightarrow> (Inr (), s)
      | Some selected_tweet \<Rightarrow>
          and_then
            (identify_research_topic
               (topic_answer sv \<lparr>ctx_tweet = selected_tweet, research_summary = None\<rparr>),
             logged [Called Identify_research_topic] s)
            (\<lambda>topic s.
          and_then (research sv topic s)
            (\<lambda>summary s.
          let context =
                \<lparr>ctx_tweet = selected_tweet,
                 research_summary = Some (or_placeholder summary)\<rparr>
          in
          and_then
            (decide_quote_or_reply (decide_answer sv context),
             logged [Called Decide_quote_or_reply] s)
            (\<lambda>is_quote_tweet s.
          and_then (generate sv context is_quote_tweet s)
            (\<lambda>(response_text, thread) s.
          (case response_text of
             None \<Rightarrow> (Inr (), s)
           | Some txt \<Rightarrow>
               if txt = [] then (Inr (), s)
               else
                 and_then (publish sv selected_tweet is_quote_tweet txt thread s)
                   (\<lambda>post_result s.
                      if post_result then
                        (Inr (),
                         s\<lparr>processed_tweet_ids :=
                             insert (tweet_id selected_tweet) (processed_tweet_ids s)\<rparr>)
                      else (Inr (), s))))))))"

text \<open>
  The body of the \<^verbatim>\<open>try\<close> block of \<^verbatim>\<open>main_cycle\<close>. It ends by falling through to the
  code after the \<^verbatim>\<open>try\<close> statement, by \<^verbatim>\<open>continue\<close>, or with an exception.
\<close>

datatype flow = Fall_through | Continue

definition cycle_body :: "services \<Rightarrow> bot_state \<Rightarrow> (exn + flow) \<times> bot_state" where
  "cycle_body sv s =
     and_then (fetched sv, logged [Fetch_tweets] s)
       (\<lambda>fetched_tweets s.
          if fetched_tweets = [] then (Inr Continue, s)
          else
            and_then (process_fetched_tweets sv fetched_tweets s)
              (\<lambda>(selected_tweet, unprocessed) s.
                 and_then (handle_selected_tweet sv selected_tweet s)
                   (\<lambda>u s. (Inr Fall_through, s))))"

text \<open>
  The sleep duration. \<open>rnd\<close> is the rounding of the float product
  \<^verbatim>\<open>CYCLE_LENGTH * variance\<close> to a representable number; the identity gives the exact
  real arithmetic.
\<close>

definition cycle_time :: "(real \<Rightarrow> real) \<Rightarrow> int \<Rightarrow> real \<Rightarrow> int" where
  "cycle_time rnd CYCLE_LENGTH variance =
     CYCLE_LENGTH + py_int (rnd (of_int CYCLE_LENGTH * variance))"

text \<open>
  The code after the \<^verbatim>\<open>try\<close> statement. \<^verbatim>\<open>time.sleep\<close> raises \<^verbatim>\<open>ValueError\<close> for a
  negative duration, and an interrupt may arrive while it sleeps; no handler encloses it.
\<close>

definition sleep_step ::
  "(real \<Rightarrow> real) \<Rightarrow> int \<Rightarrow> services \<Rightarrow> bot_state \<Rightarrow> (exn + unit) \<times> bot_state" where
  "sleep_step rnd CYCLE_LENGTH sv s =
     (let t = cycle_time rnd CYCLE_LENGTH (uniform sv)
      in if t < 0 then (Inl Other_exception, s)
         else if interrupted_in_sleep sv then (Inl Base_exception, logged [Sleep t] s)
         else (Inr (), logged [Sleep t] s))"

text \<open>One iteration of \<^verbatim>\<open>while True\<close>: \<open>Inl e\<close> when \<open>e\<close> leaves \<^verbatim>\<open>main_cycle\<close>.\<close>

definition iteration ::
  "(real \<Rightarrow> real) \<Rightarrow> int \<Rightarrow> services \<Rightarrow> bot_state \<Rightarrow> (exn + unit) \<times> bot_state" where
  "iteration rnd CYCLE_LENGTH sv s =
     (case cycle_body sv s of
        (Inr Continue, s') \<Rightarrow> (Inr (), s')
      | (Inr Fall_through, s') \<Rightarrow> sleep_step rnd CYCLE_LENGTH sv s'
      | (Inl e, s') \<Rightarrow>
          if is_Exception e then sleep_step rnd CYCLE_LENGTH sv (logged [Cycle_error e] s')
          else (Inl e, s'))"

text \<open>
  \<^verbatim>\<open>main_cycle\<close> never returns normally. Its first \<open>n\<close> iterations, where \<open>world i\<close>
  describes the services during iteration \<open>i\<close>: either an exception has left the loop
  (\<open>Stopped\<close>), or the loop is about to begin iteration \<open>i + n\<close> (\<open>Running\<close>).
\<close>

datatype status = Running | Stopped exn

fun main_cycle ::
  "(real \<Rightarrow> real) \<Rightarrow> int \<Rightarrow> (nat \<Rightarrow> services) \<Rightarrow> nat \<Rightarrow> nat \<Rightarrow> bot_state \<Rightarrow> status \<times> bot_state" where
  "main_cycle rnd CYCLE_LENGTH world i 0 s = (Running, s)"
| "main_cycle rnd CYCLE_LENGTH world i (Suc n) s =
     (case iteration rnd CYCLE_LENGTH (world i) s of
        (Inl e, s') \<Rightarrow> (Stopped e, s')
      | (Inr u, s') \<Rightarrow> main_cycle rnd CYCLE_LENGTH world (Suc i) n s')"

section \<open>Reading the events\<close>

text \<open>
  What a list of events says about the posting: the texts of the units whose posting was
  started (the attempts numbered 0), the dictionaries of the successful posts, and
  whether every call was addressed to the most recent successful post. In
  \<open>replies_to_latest q anchor evs\<close> the anchor is the identifier of the latest successful
  post before \<open>evs\<close>, \<open>None\<close> when nothing has been posted yet: then the call must quote
  \<open>q\<close>, otherwise it must reply to the anchor.
\<close>

fun started :: "event \<Rightarrow> pystr option" where
  "started (Create_tweet t tgt n out) = (if n = 0 then Some t else None)"
| "started ev = None"

fun posted_of :: "event \<Rightarrow> posted option" where
  "posted_of (Create_tweet t tgt n (Created tid)) = Some \<lparr>posted_id = tid, posted_text = t\<rparr>"
| "posted_of ev = None"

fun is_create :: "event \<Rightarrow> bool" where
  "is_create (Create_tweet t tgt n out) = True"
| "is_create ev = False"

fun expected_target :: "pyid \<Rightarrow> pyid option \<Rightarrow> target" where
  "expected_target q None = Quote_tweet_id q"
| "expected_target q (Some i) = In_reply_to_tweet_id i"

fun replies_to_latest :: "pyid \<Rightarrow> pyid option \<Rightarrow> event list \<Rightarrow> bool" where
  "replies_to_latest q anchor [] = True"
| "replies_to_latest q anchor (Create_tweet t tgt n (Created tid) # evs) =
     (tgt = expected_target q anchor \<and> replies_to_latest q tid evs)"
| "replies_to_latest q anchor (Create_tweet t tgt n (Create_raises e) # evs) =
     (tgt = expected_target q anchor \<and> replies_to_latest q anchor evs)"
| "replies_to_latest q anchor (ev # evs) = replies_to_latest q anchor evs"

text \<open>
  The platforms the posting claims are about: every call either succeeds with a truthy
  identifier or raises an error of the kinds the publisher retries.
\<close>

definition retry_eligible :: "(nat \<Rightarrow> create_outcome) \<Rightarrow> bool" where
  "retry_eligible create \<longleftrightarrow>
     (\<forall>k. case create k of
            Created tid \<Rightarrow> truthy_id tid
          | Create_raises e \<Rightarrow> e = Connection_or_Tweepy)"

text \<open>The identifier of the latest successful post in a list of events, \<open>anchor\<close> if none.\<close>

fun anchor_after :: "pyid option \<Rightarrow> event list \<Rightarrow> pyid option" where
  "anchor_after anchor [] = anchor"
| "anchor_after anchor (Create_tweet t tgt n (Created tid) # evs) = anchor_after tid evs"
| "anchor_after anchor (ev # evs) = anchor_after anchor evs"

text \<open>The events the publisher itself produces.\<close>

fun publisher_event :: "event \<Rightarrow> bool" where
  "publisher_event (Create_tweet t tgt n out) = True"
| "publisher_event (Retry_sleep d) = True"
| "publisher_event ev = False"

text \<open>The events that record a call of the generative or research client.\<close>

fun client_call :: "event \<Rightarrow> bool" where
  "client_call (Called m) = True"
| "client_call ev = False"



text \<open>The events of the \<^verbatim>\<open>try\<close> block other than the result of the posting call.\<close>

fun body_event :: "event \<Rightarrow> bool" where
  "body_event Fetch_tweets = True"
| "body_event (Called m) = True"
| "body_event (Create_tweet t tgt n out) = True"
| "body_event (Retry_sleep d) = True"
| "body_event ev = False"

text \<open>
  Services during which no interruption arrives: no call raises an exception outside
  \<^verbatim>\<open>Exception\<close> and the sleep is not interrupted.
\<close>

definition uninterrupted :: "services \<Rightarrow> bool" where
  "uninterrupted sv \<longleftrightarrow>
     fetched sv \<noteq> Inl Base_exception
     \<and> (\<forall>tweets. select_answer sv tweets \<noteq> Raises Base_exception)
     \<and> (\<forall>ctx. topic_answer sv ctx \<noteq> Raises Base_exception)
     \<and> (\<forall>topic. research_answer sv topic \<noteq> Raises Base_exception)
     \<and> (\<forall>ctx. decide_answer sv ctx \<noteq> Raises Base_exception)
     \<and> (\<forall>ctx i. quote_answers sv ctx i \<noteq> Raises Base_exception)
     \<and> (\<forall>ctx i. reply_answers sv ctx i \<noteq> Raises Base_exception)
     \<and> (\<forall>k. create_tweet sv k \<noteq> Create_raises Base_exception)
     \<and> \<not> interrupted_in_sleep sv"

section \<open>Example inputs\<close>

text \<open>
  Two answer sequences used to run the generation loops: the reply request fails once and
  then gives a well-formed answer; the quote request first gives an answer without
  markers, then one with a thread of two lines separated by a blank line.
\<close>

definition reply_answer_example :: "nat \<Rightarrow> completion" where
  "reply_answer_example i =
     (if i = 0 then Raises Other_exception
      else Content (lit ''### Analysis ###'' @ [10] @ lit ''much think'' @ [10]
             @ lit ''### Reply ###'' @ [10] @ lit ''such wow''))"

definition quote_answer_example :: "nat \<Rightarrow> completion" where
  "quote_answer_example i =
     (if i = 0 then Content (lit ''no markers'')
      else Content (lit ''### Analysis ###'' @ [10] @ lit ''hm'' @ [10]
             @ lit ''### Tweet ###'' @ [10] @ lit ''bork'' @ [10]
             @ lit ''### Thread ###'' @ [10] @ lit ''one'' @ [10, 32, 10] @ lit '' two ''))"

text \<open>
  Four platforms used to run the publisher with four attempts per post: on the first the
  main post succeeds at its fourth attempt, the next post fails four times and the one
  after it succeeds; on the second every call fails with a connection error; on the third
  the main post succeeds and every later call raises an exception of another kind; on the
  fourth every call succeeds and the answer carries the empty string as identifier.
\<close>

definition create_example :: "nat \<Rightarrow> create_outcome" where
  "create_example k =
     (if k < 3 then Create_raises Connection_or_Tweepy
      else if k = 3 then Created (Some (Id_str (lit ''100'')))
      else if k < 8 then Create_raises Connection_or_Tweepy
      else Created (Some (Id_str (lit ''200''))))"

definition create_unreachable :: "nat \<Rightarrow> create_outcome" where
  "create_unreachable k = Create_raises Connection_or_Tweepy"

definition create_fatal :: "nat \<Rightarrow> create_outcome" where
  "create_fatal k =
     (if k = 0 then Created (Some (Id_str (lit ''100''))) else Create_raises Other_exception)"

definition create_blank_id :: "nat \<Rightarrow> create_outcome" where
  "create_blank_id k = Created (Some (Id_str []))"

text \<open>
  One iteration of the scheduler: a feed of one candidate, which the selection answer
  names; no research topic; the decision is to reply; the reply is generated at the second
  attempt and posted at the fourth.
\<close>

definition tweet_example :: tweet where
  "tweet_example =
     \<lparr>tweet_id = 42, original_tweet_id = 41, author_username = lit ''hooman'',
      tweet_text = lit ''cat meme'', media_urls = [], image_descriptions = [],
      engagement_metrics = [(lit ''like_count'', 7)], created_at = None\<rparr>"

definition services_example :: services where
  "services_example =
     \<lparr>fetched = Inr [tweet_example],
      select_answer = (\<lambda>tweets. Content (lit ''### Analysis ###'' @ [10] @ lit ''best'' @ [10]
                         @ lit ''### Response ###'' @ [10] @ lit ''42'')),
      topic_answer = (\<lambda>ctx. Content (lit ''### Analysis ###'' @ [10] @ lit ''hm'' @ [10]
                         @ lit ''### Response ###'' @ [10] @ lit ''None'')),
      research_answer = (\<lambda>topic. Raises Other_exception),
      decide_answer = (\<lambda>ctx. Content (lit ''### Decision ###'' @ [10] @ lit ''Reply'')),
      quote_answers = (\<lambda>ctx. quote_answer_example),
      reply_answers = (\<lambda>ctx. reply_answer_example),
      create_tweet = create_example,
      uniform = - 7 / 100,
      interrupted_in_sleep = False\<rparr>"

definition state_example :: bot_state where
  "state_example = \<lparr>processed_tweet_ids = {7}, log = []\<rparr>"

text \<open>The same services with a feed client that raises an exception.\<close>

definition services_down :: services where
  "services_down = services_example\<lparr>fetched := Inl Other_exception\<rparr>"




definition services_undecided :: services where
  "services_undecided =
     services_example\<lparr>select_answer :=
       (\<lambda>tweets. Content (lit ''### Analysis ###'' @ [10] @ lit ''meh'' @ [10]
                    @ lit ''### Response ###'' @ [10] @ lit ''99''))\<rparr>"

definition services_idle :: services where
  "services_idle = services_example\<lparr>fetched := Inr []\<rparr>"

section \<open>Facts about the string functions\<close>

lemma split_from_nonempty: "split_from sep acc s \<noteq> []"
  by (induction sep acc s rule: split_from.induct) auto

lemma occurs_in_iff: "occurs_in sep s \<longleftrightarrow> (\<exists>p q. s = p @ sep @ q)"
proof (induction s)
  case Nil
  then show ?case by auto
next
  case (Cons c cs)
  show ?case
  proof
    assume "occurs_in sep (c # cs)"
    then consider "take (length sep) (c # cs) = sep" | "occurs_in sep cs" by auto
    then show "\<exists>p q. c # cs = p @ sep @ q"
    proof cases
      case 1
      then have "c # cs = [] @ sep @ drop (length sep) (c # cs)"
        by (metis append_Nil append_take_drop_id)
      then show ?thesis by blast
    next
      case 2
      then obtain p q where "cs = p @ sep @ q" using Cons.IH by blast
      then have "c # cs = (c # p) @ sep @ q" by simp
      then show ?thesis by blast
    qed
  next
    assume "\<exists>p q. c # cs = p @ sep @ q"
    then obtain p q where pq: "c # cs = p @ sep @ q" by blast
    show "occurs_in sep (c # cs)"
    proof (cases p)
      case Nil
      then have "take (length sep) (c # cs) = sep" using pq by simp
      then show ?thesis by simp
    next
      case (Cons a p')
      then have "cs = p' @ sep @ q" using pq by simp
      then have "occurs_in sep cs" using Cons.IH by blast
      then show ?thesis by simp
    qed
  qed
qed

lemma split_from_absent:
  "\<not> occurs_in sep s \<Longrightarrow> split_from sep acc s = [rev acc @ s]"
  by (induction s arbitrary: acc) auto

lemma py_strip_decomp: "\<exists>p q. s = p @ py_strip s @ q"
proof -
  let ?d = "dropWhile py_isspace s"
  have a: "s = takeWhile py_isspace s @ ?d" by simp
  have "rev ?d = takeWhile py_isspace (rev ?d) @ dropWhile py_isspace (rev ?d)" by simp
  then have "?d = rev (dropWhile py_isspace (rev ?d)) @ rev (takeWhile py_isspace (rev ?d))"
    by (metis rev_append rev_rev_ident)
  then have "?d = py_strip s @ rev (takeWhile py_isspace (rev ?d))"
    by (simp add: py_strip_def)
  with a show ?thesis by metis
qed

lemma occurs_in_py_strip: "occurs_in sep (py_strip s) \<Longrightarrow> occurs_in sep s"
proof -
  assume "occurs_in sep (py_strip s)"
  then obtain p q where 1: "py_strip s = p @ sep @ q" using occurs_in_iff by blast
  obtain p' q' where 2: "s = p' @ py_strip s @ q'" using py_strip_decomp by blast
  have "s = (p' @ p) @ sep @ (q @ q')" using 1 2 by simp
  then show ?thesis using occurs_in_iff by blast
qed

lemma item_absent: "\<not> occurs_in sep s \<Longrightarrow> item (py_split sep (py_strip s)) 1 = None"
proof -
  assume "\<not> occurs_in sep s"
  then have "\<not> occurs_in sep (py_strip s)" using occurs_in_py_strip by blast
  then have "py_split sep (py_strip s) = [py_strip s]"
    using split_from_absent[of sep "py_strip s" "[]"] by (simp add: py_split_def)
  then show ?thesis by (simp add: item_def)
qed

section \<open>The content generator\<close>

lemma reply_attempt_Return:
  "reply_attempt a = Return (x, t) \<Longrightarrow> length t \<le> 280"
  by (auto simp: reply_attempt_def split: completion.splits option.splits if_splits prod.splits)

lemma quote_attempt_Return:
  "quote_attempt a = Return (x, t, th) \<Longrightarrow>
     length t \<le> 280 \<and> (\<forall>seg \<in> set th. length seg \<le> 280)
     \<and> (\<exists>c sec. a = Content c \<and> item (py_split THREAD (py_strip c)) 1 = Some sec
            \<and> th = thread_list_of (py_strip sec))"
  by (auto simp: quote_attempt_def parse_quote_def list_ex_iff not_less
      split: completion.splits option.splits if_splits prod.splits)

lemma generate_reply_from_result:
  "generate_reply_from ask n a = Inr res \<Longrightarrow>
     res = (None, None)
     \<or> (\<exists>i x t. a \<le> i \<and> i < n \<and> reply_attempt (ask i) = Return (x, t)
           \<and> res = (Some x, Some t))"
proof (induction ask n a rule: generate_reply_from.induct)
  case (1 ask max_attempts attempt)
  show ?case
  proof (cases "attempt < max_attempts")
    case False
    then show ?thesis using "1.prems" by (simp add: generate_reply_from.simps)
  next
    case True
    show ?thesis
    proof (cases "reply_attempt (ask attempt)")
      case Retry
      then have "generate_reply_from ask max_attempts (Suc attempt) = Inr res"
        using True "1.prems" by (simp add: generate_reply_from.simps[of ask max_attempts attempt])
      then have "res = (None, None)
        \<or> (\<exists>i x t. Suc attempt \<le> i \<and> i < max_attempts
              \<and> reply_attempt (ask i) = Return (x, t) \<and> res = (Some x, Some t))"
        using "1.IH" True Retry by blast
      then show ?thesis using Suc_leD by blast
    next
      case (Return p)
      obtain x t where p: "p = (x, t)" by (cases p)
      have "res = (Some x, Some t)"
        using True Return p "1.prems"
        by (simp add: generate_reply_from.simps[of ask max_attempts attempt])
      then show ?thesis using True Return p by blast
    next
      case (Propagate e)
      then show ?thesis using True "1.prems"
        by (simp add: generate_reply_from.simps[of ask max_attempts attempt])
    qed
  qed
qed

lemma generate_quote_tweet_from_result:
  "generate_quote_tweet_from ask n a = Inr res \<Longrightarrow>
     res = (None, None, [])
     \<or> (\<exists>i x t th. a \<le> i \<and> i < n \<and> quote_attempt (ask i) = Return (x, t, th)
           \<and> res = (Some x, Some t, th))"
proof (induction ask n a rule: generate_quote_tweet_from.induct)
  case (1 ask max_attempts attempt)
  show ?case
  proof (cases "attempt < max_attempts")
    case False
    then show ?thesis using "1.prems" by (simp add: generate_quote_tweet_from.simps)
  next
    case True
    show ?thesis
    proof (cases "quote_attempt (ask attempt)")
      case Retry
      then have "generate_quote_tweet_from ask max_attempts (Suc attempt) = Inr res"
        using True "1.prems"
        by (simp add: generate_quote_tweet_from.simps[of ask max_attempts attempt])
      then have "res = (None, None, [])
        \<or> (\<exists>i x t th. Suc attempt \<le> i \<and> i < max_attempts
              \<and> quote_attempt (ask i) = Return (x, t, th) \<and> res = (Some x, Some t, th))"
        using "1.IH" True Retry by blast
      then show ?thesis using Suc_leD by blast
    next
      case (Return p)
      obtain x t th where p: "p = (x, t, th)" by (cases p)
      have "res = (Some x, Some t, th)"
        using True Return p "1.prems"
        by (simp add: generate_quote_tweet_from.simps[of ask max_attempts attempt])
      then show ?thesis using True Return p by blast
    next
      case (Propagate e)
      then show ?thesis using True "1.prems"
        by (simp add: generate_quote_tweet_from.simps[of ask max_attempts attempt])
    qed
  qed
qed



lemma py_strip_nonblank:
  "py_strip s \<noteq> [] \<Longrightarrow> \<exists>ch \<in> set (py_strip s). \<not> py_isspace ch"
proof -
  let ?r = "dropWhile py_isspace (rev (dropWhile py_isspace s))"
  assume "py_strip s \<noteq> []"
  then have ne: "?r \<noteq> []" by (simp add: py_strip_def)
  then have "\<not> py_isspace (hd ?r)" by (rule hd_dropWhile)
  moreover have "hd ?r \<in> set (py_strip s)" using ne by (simp add: py_strip_def)
  ultimately show ?thesis by blast
qed

lemma py_strip_blank: "(\<forall>ch \<in> set s. py_isspace ch) \<Longrightarrow> py_strip s = []"
proof -
  assume "\<forall>ch \<in> set s. py_isspace ch"
  then have d: "dropWhile py_isspace s = []" by simp
  show ?thesis unfolding py_strip_def d by simp
qed

lemma thread_list_of_nonblank:
  "seg \<in> set (thread_list_of sec) \<Longrightarrow> seg \<noteq> [] \<and> (\<exists>ch \<in> set seg. \<not> py_isspace ch)"
  using py_strip_nonblank by (auto simp: thread_list_of_def)

lemma thread_list_of_blank:
  "(\<forall>ch \<in> set sec. py_isspace ch) \<Longrightarrow> thread_list_of (py_strip sec) = []"
proof -
  assume "\<forall>ch \<in> set sec. py_isspace ch"
  then have "py_strip sec = []" by (rule py_strip_blank)
  moreover have "thread_list_of [] = []"
    by (simp add: thread_list_of_def py_split_def py_strip_def)
  ultimately show ?thesis by simp
qed

lemma generate_reply_example:
  "generate_reply reply_answer_example 3 = Inr (Some (lit ''much think''), Some (lit ''such wow''))"
  by (simp add: generate_reply_def generate_reply_from.simps[of _ 3 0]
        generate_reply_from.simps[of _ 3 "Suc 0"] reply_answer_example_def reply_attempt_def
        parse_reply_def ANALYSIS_def REPLY_def lit_def py_split_def py_strip_def py_isspace_def
        item_def is_Exception_def)

lemma generate_quote_tweet_example:
  "generate_quote_tweet quote_answer_example 3 =
     Inr (Some (lit ''hm''), Some (lit ''bork''), [lit ''one'', lit ''two''])"
  by (simp add: generate_quote_tweet_def generate_quote_tweet_from.simps[of _ 3 0]
        generate_quote_tweet_from.simps[of _ 3 "Suc 0"] quote_answer_example_def
        quote_attempt_def parse_quote_def thread_list_of_def ANALYSIS_def TWEET_def THREAD_def
        lit_def py_split_def py_strip_def py_isspace_def item_def is_Exception_def)

lemma quote_attempt_without_thread_marker:
  "\<not> occurs_in THREAD c \<Longrightarrow> quote_attempt (Content c) = Retry"
  using item_absent[of THREAD c]
  by (simp add: quote_attempt_def parse_quote_def split: option.splits)

section \<open>The publisher\<close>

lemma map_filter_append: "List.map_filter f (xs @ ys) = List.map_filter f xs @ List.map_filter f ys"
  by (simp add: List.map_filter_def)

lemma replies_to_latest_append:
  "replies_to_latest q a (xs @ ys) \<longleftrightarrow>
     replies_to_latest q a xs \<and> replies_to_latest q (anchor_after a xs) ys"
  by (induction q a xs rule: replies_to_latest.induct) auto

lemma anchor_after_append:
  "anchor_after a (xs @ ys) = anchor_after (anchor_after a xs) ys"
  by (induction a xs rule: anchor_after.induct) auto

lemma create_target_expected:
  "a = None \<or> truthy_id a \<Longrightarrow> create_target q a = expected_target q a"
  by (cases a) (auto simp: create_target_def)

lemma retry_eligible_Created:
  "retry_eligible create \<Longrightarrow> create k = Created tid \<Longrightarrow> truthy_id tid"
proof -
  assume el: "retry_eligible create" and c: "create k = Created tid"
  from el have "\<forall>k. case create k of Created tid \<Rightarrow> truthy_id tid
                    | Create_raises e \<Rightarrow> e = Connection_or_Tweepy"
    by (simp add: retry_eligible_def)
  then have "case create k of Created tid \<Rightarrow> truthy_id tid
             | Create_raises e \<Rightarrow> e = Connection_or_Tweepy"
    by (rule spec)
  then show ?thesis using c by simp
qed

lemma retry_eligible_raises:
  "retry_eligible create \<Longrightarrow> create k = Create_raises e \<Longrightarrow> e = Connection_or_Tweepy"
proof -
  assume el: "retry_eligible create" and c: "create k = Create_raises e"
  from el have "\<forall>k. case create k of Created tid \<Rightarrow> truthy_id tid
                    | Create_raises e \<Rightarrow> e = Connection_or_Tweepy"
    by (simp add: retry_eligible_def)
  then have "case create k of Created tid \<Rightarrow> truthy_id tid
             | Create_raises e \<Rightarrow> e = Connection_or_Tweepy"
    by (rule spec)
  then show ?thesis using c by simp
qed

lemma post_tweet_with_retry_events:
  "post_tweet_with_retry create q R d msg a k n = (r, k', evs) \<Longrightarrow>
     \<forall>ev \<in> set evs. publisher_event ev"
proof (induction create q R d msg a k n arbitrary: r k' evs rule: post_tweet_with_retry.induct)
  case (1 create q R d msg a k n)
  show ?case
  proof (cases "n < R")
    case False
    then show ?thesis using "1.prems" by (simp add: post_tweet_with_retry.simps)
  next
    case True
    show ?thesis
    proof (cases "create k")
      case (Created tid)
      then show ?thesis using True "1.prems"
        by (auto simp: post_tweet_with_retry.simps[of create q R d msg a k n])
    next
      case (Create_raises e)
      show ?thesis
      proof (cases "e = Connection_or_Tweepy")
        case False
        then show ?thesis using True Create_raises "1.prems"
          by (auto simp: post_tweet_with_retry.simps[of create q R d msg a k n])
      next
        case e: True
        obtain r1 k1 evs1 where rec:
          "post_tweet_with_retry create q R d msg a (Suc k) (Suc n) = (r1, k1, evs1)"
          by (cases "post_tweet_with_retry create q R d msg a (Suc k) (Suc n)") auto
        have ih: "\<forall>ev \<in> set evs1. publisher_event ev"
          using "1.IH"[OF True Create_raises e rec] .
        have "evs = Create_tweet msg (create_target q a) n (Create_raises e)
                # (if n < R - 1 then [Retry_sleep d] else []) @ evs1"
          using True Create_raises e rec "1.prems"
          by (simp add: post_tweet_with_retry.simps[of create q R d msg a k n])
        then show ?thesis using ih by auto
      qed
    qed
  qed
qed

lemma post_tweet_with_retry_spec:
  "retry_eligible create \<Longrightarrow> a = None \<or> truthy_id a \<Longrightarrow>
   post_tweet_with_retry create q R d msg a k n = (r, k', evs) \<Longrightarrow>
     (\<exists>res. r = Inr res
        \<and> List.map_filter posted_of evs = (case res of None \<Rightarrow> [] | Some p \<Rightarrow> [p])
        \<and> anchor_after a evs = (case res of None \<Rightarrow> a | Some p \<Rightarrow> posted_id p)
        \<and> (case res of None \<Rightarrow> True | Some p \<Rightarrow> truthy_id (posted_id p)))
     \<and> List.map_filter started evs = (if n = 0 \<and> 0 < R then [msg] else [])
     \<and> replies_to_latest q a evs"
proof (induction create q R d msg a k n arbitrary: r k' evs rule: post_tweet_with_retry.induct)
  case (1 create q R d msg a k n)
  note el = "1.prems"(1) and an = "1.prems"(2) and run = "1.prems"(3)
  have tgt: "create_target q a = expected_target q a"
    using an by (rule create_target_expected)
  show ?case
  proof (cases "n < R")
    case False
    then show ?thesis using run by (auto simp: post_tweet_with_retry.simps[of create q R d msg a k n])
  next
    case True
    show ?thesis
    proof (cases "create k")
      case (Created tid)
      have "truthy_id tid" using el Created by (rule retry_eligible_Created)
      then show ?thesis using True Created run tgt
        by (auto simp: post_tweet_with_retry.simps[of create q R d msg a k n])
    next
      case (Create_raises e)
      have e: "e = Connection_or_Tweepy" using el Create_raises by (rule retry_eligible_raises)
      obtain r1 k1 evs1 where rec:
        "post_tweet_with_retry create q R d msg a (Suc k) (Suc n) = (r1, k1, evs1)"
        by (cases "post_tweet_with_retry create q R d msg a (Suc k) (Suc n)") auto
      note ih = "1.IH"[OF True Create_raises e el an rec]
      have evs: "evs = Create_tweet msg (create_target q a) n (Create_raises e)
                # (if n < R - 1 then [Retry_sleep d] else []) @ evs1"
        and r: "r = r1"
        using True Create_raises e rec run
        by (simp_all add: post_tweet_with_retry.simps[of create q R d msg a k n])
      show ?thesis using ih True unfolding evs r
        by (auto simp: tgt)
    qed
  qed
qed

lemma post_tweet_with_retry_succeeds:
  "retry_eligible create \<Longrightarrow>
   \<exists>j tid. k \<le> j \<and> j < k + (R - n) \<and> create j = Created tid \<Longrightarrow>
     \<exists>p k' evs. post_tweet_with_retry create q R d msg a k n = (Inr (Some p), k', evs)"
proof (induction create q R d msg a k n rule: post_tweet_with_retry.induct)
  case (1 create q R d msg a k n)
  note el = "1.prems"(1)
  obtain j tid where j: "k \<le> j" "j < k + (R - n)" "create j = Created tid"
    using "1.prems"(2) by blast
  then have True: "n < R" by simp
  show ?case
  proof (cases "create k")
    case (Created tid')
    then show ?thesis using True
      by (simp add: post_tweet_with_retry.simps[of create q R d msg a k n])
  next
    case (Create_raises e)
    have e: "e = Connection_or_Tweepy" using el Create_raises by (rule retry_eligible_raises)
    have "j \<noteq> k" using j(3) Create_raises by auto
    then have "Suc k \<le> j \<and> j < Suc k + (R - Suc n) \<and> create j = Created tid"
      using j True by simp
    then have "\<exists>j tid. Suc k \<le> j \<and> j < Suc k + (R - Suc n) \<and> create j = Created tid"
      by blast
    then obtain p k' evs where
      "post_tweet_with_retry create q R d msg a (Suc k) (Suc n) = (Inr (Some p), k', evs)"
      using "1.IH"[OF True Create_raises e el] by blast
    then show ?thesis using True Create_raises e
      by (simp add: post_tweet_with_retry.simps[of create q R d msg a k n])
  qed
qed

lemma post_tweet_with_retry_exhausted:
  "\<forall>j. k \<le> j \<and> j < k + (R - n) \<longrightarrow> create j = Create_raises Connection_or_Tweepy \<Longrightarrow>
   post_tweet_with_retry create q R d msg a k n = (r, k', evs) \<Longrightarrow>
     r = Inr None
     \<and> filter is_create evs =
         map (\<lambda>j. Create_tweet msg (create_target q a) j (Create_raises Connection_or_Tweepy))
           [n..<R]"
proof (induction create q R d msg a k n arbitrary: r k' evs rule: post_tweet_with_retry.induct)
  case (1 create q R d msg a k n)
  note all = "1.prems"(1) and run = "1.prems"(2)
  show ?case
  proof (cases "n < R")
    case False
    then show ?thesis using run
      by (auto simp: post_tweet_with_retry.simps[of create q R d msg a k n])
  next
    case True
    then have c: "create k = Create_raises Connection_or_Tweepy" using all by simp
    obtain r1 k1 evs1 where rec:
      "post_tweet_with_retry create q R d msg a (Suc k) (Suc n) = (r1, k1, evs1)"
      by (cases "post_tweet_with_retry create q R d msg a (Suc k) (Suc n)") auto
    have all': "\<forall>j. Suc k \<le> j \<and> j < Suc k + (R - Suc n)
                  \<longrightarrow> create j = Create_raises Connection_or_Tweepy"
    proof (intro allI impI)
      fix j
      assume "Suc k \<le> j \<and> j < Suc k + (R - Suc n)"
      then have "k \<le> j \<and> j < k + (R - n)" using True by linarith
      then show "create j = Create_raises Connection_or_Tweepy" using all by blast
    qed
    note ih = "1.IH"[OF True c refl all' rec]
    have evs: "evs = Create_tweet msg (create_target q a) n (Create_raises Connection_or_Tweepy)
                # (if n < R - 1 then [Retry_sleep d] else []) @ evs1"
      and r: "r = r1"
      using True c rec run
      by (simp_all add: post_tweet_with_retry.simps[of create q R d msg a k n])
    have upt: "[n..<R] = n # [Suc n..<R]" using True by (simp add: upt_conv_Cons)
    show ?thesis using ih unfolding evs r upt by auto
  qed
qed

lemma post_thread_events:
  "post_thread create q R d a acc k thread = (r, k', evs) \<Longrightarrow>
     \<forall>ev \<in> set evs. publisher_event ev"
proof (induction thread arbitrary: a acc k r k' evs)
  case Nil
  then show ?case by simp
next
  case (Cons seg rest)
  obtain r1 k1 evs1 where unit:
    "post_tweet_with_retry create q R d seg a k 0 = (r1, k1, evs1)"
    by (cases "post_tweet_with_retry create q R d seg a k 0") auto
  have e1: "\<forall>ev \<in> set evs1. publisher_event ev"
    using post_tweet_with_retry_events[OF unit] .
  show ?case
  proof (cases r1)
    case (Inl e)
    then show ?thesis using Cons.prems unit e1 by simp
  next
    case (Inr res)
    show ?thesis
    proof (cases res)
      case None
      obtain r2 k2 evs2 where rest: "post_thread create q R d a acc k1 rest = (r2, k2, evs2)"
        by (cases "post_thread create q R d a acc k1 rest") auto
      have "evs = evs1 @ evs2" using Cons.prems unit Inr None rest by simp
      then show ?thesis using e1 Cons.IH[OF rest] by auto
    next
      case (Some p)
      obtain r2 k2 evs2 where rest:
        "post_thread create q R d (posted_id p) (acc @ [p]) k1 rest = (r2, k2, evs2)"
        by (cases "post_thread create q R d (posted_id p) (acc @ [p]) k1 rest") auto
      have "evs = evs1 @ evs2" using Cons.prems unit Inr Some rest by simp
      then show ?thesis using e1 Cons.IH[OF rest] by auto
    qed
  qed
qed

lemma post_thread_spec:
  "retry_eligible create \<Longrightarrow> 0 < R \<Longrightarrow> a = None \<or> truthy_id a \<Longrightarrow>
   post_thread create q R d a acc k thread = (r, k', evs) \<Longrightarrow>
     r = Inr (acc @ List.map_filter posted_of evs)
     \<and> List.map_filter started evs = thread
     \<and> replies_to_latest q a evs"
proof (induction thread arbitrary: a acc k r k' evs)
  case Nil
  then show ?case by simp
next
  case (Cons seg rest)
  note el = Cons.prems(1) and R = Cons.prems(2) and an = Cons.prems(3) and run = Cons.prems(4)
  obtain r1 k1 evs1 where unit:
    "post_tweet_with_retry create q R d seg a k 0 = (r1, k1, evs1)"
    by (cases "post_tweet_with_retry create q R d seg a k 0") auto
  from post_tweet_with_retry_spec[OF el an unit]
  obtain res where r1: "r1 = Inr res"
    and posted1: "List.map_filter posted_of evs1 = (case res of None \<Rightarrow> [] | Some p \<Rightarrow> [p])"
    and anchor1: "anchor_after a evs1 = (case res of None \<Rightarrow> a | Some p \<Rightarrow> posted_id p)"
    and truthy1: "case res of None \<Rightarrow> True | Some p \<Rightarrow> truthy_id (posted_id p)"
    and started1: "List.map_filter started evs1 = [seg]"
    and chain1: "replies_to_latest q a evs1"
    using R by auto
  show ?case
  proof (cases res)
    case None
    obtain r2 k2 evs2 where rest: "post_thread create q R d a acc k1 rest = (r2, k2, evs2)"
      by (cases "post_thread create q R d a acc k1 rest") auto
    have evs: "evs = evs1 @ evs2" and r: "r = r2" using run unit r1 None rest by simp_all
    note ih = Cons.IH[OF el R an rest]
    show ?thesis using ih posted1 anchor1 started1 chain1 None
      unfolding evs r by (simp add: map_filter_append replies_to_latest_append)
  next
    case (Some p)
    obtain r2 k2 evs2 where rest:
      "post_thread create q R d (posted_id p) (acc @ [p]) k1 rest = (r2, k2, evs2)"
      by (cases "post_thread create q R d (posted_id p) (acc @ [p]) k1 rest") auto
    have evs: "evs = evs1 @ evs2" and r: "r = r2" using run unit r1 Some rest by simp_all
    have an': "posted_id p = None \<or> truthy_id (posted_id p)" using truthy1 Some by simp
    note ih = Cons.IH[OF el R an' rest]
    show ?thesis using ih posted1 anchor1 started1 chain1 Some
      unfolding evs r by (simp add: map_filter_append replies_to_latest_append)
  qed
qed

lemmas retry_unfold =
  post_tweet_with_retry.simps[of _ _ 4 _ _ _ _ 0]
  post_tweet_with_retry.simps[of _ _ 4 _ _ _ _ "Suc 0"]
  post_tweet_with_retry.simps[of _ _ 4 _ _ _ _ "Suc (Suc 0)"]
  post_tweet_with_retry.simps[of _ _ 4 _ _ _ _ "Suc (Suc (Suc 0))"]
  post_tweet_with_retry.simps[of _ _ 4 _ _ _ _ "Suc (Suc (Suc (Suc 0)))"]

lemma post_quote_tweet_example:
  "post_quote_tweet create_example (Id_int 7) (lit ''p'') [lit ''a'', lit ''b''] 4 15 =
     (Inr (Some (\<lparr>posted_id = Some (Id_str (lit ''100'')), posted_text = lit ''p''\<rparr>,
                 [\<lparr>posted_id = Some (Id_str (lit ''200'')), posted_text = lit ''b''\<rparr>])),
      [Create_tweet (lit ''p'') (Quote_tweet_id (Id_int 7)) 0 (Create_raises Connection_or_Tweepy),
       Retry_sleep 15,
       Create_tweet (lit ''p'') (Quote_tweet_id (Id_int 7)) 1 (Create_raises Connection_or_Tweepy),
       Retry_sleep 15,
       Create_tweet (lit ''p'') (Quote_tweet_id (Id_int 7)) 2 (Create_raises Connection_or_Tweepy),
       Retry_sleep 15,
       Create_tweet (lit ''p'') (Quote_tweet_id (Id_int 7)) 3 (Created (Some (Id_str (lit ''100'')))),
       Create_tweet (lit ''a'') (In_reply_to_tweet_id (Id_str (lit ''100''))) 0
         (Create_raises Connection_or_Tweepy),
       Retry_sleep 15,
       Create_tweet (lit ''a'') (In_reply_to_tweet_id (Id_str (lit ''100''))) 1
         (Create_raises Connection_or_Tweepy),
       Retry_sleep 15,
       Create_tweet (lit ''a'') (In_reply_to_tweet_id (Id_str (lit ''100''))) 2
         (Create_raises Connection_or_Tweepy),
       Retry_sleep 15,
       Create_tweet (lit ''a'') (In_reply_to_tweet_id (Id_str (lit ''100''))) 3
         (Create_raises Connection_or_Tweepy),
       Create_tweet (lit ''b'') (In_reply_to_tweet_id (Id_str (lit ''100''))) 0
         (Created (Some (Id_str (lit ''200''))))])"
  by (simp add: post_quote_tweet_def retry_unfold create_example_def create_target_def lit_def)

lemma post_quote_tweet_unreachable_example:
  "post_quote_tweet create_unreachable (Id_int 7) (lit ''p'') [lit ''a'', lit ''b''] 4 15 =
     (Inr None,
      [Create_tweet (lit ''p'') (Quote_tweet_id (Id_int 7)) 0 (Create_raises Connection_or_Tweepy),
       Retry_sleep 15,
       Create_tweet (lit ''p'') (Quote_tweet_id (Id_int 7)) 1 (Create_raises Connection_or_Tweepy),
       Retry_sleep 15,
       Create_tweet (lit ''p'') (Quote_tweet_id (Id_int 7)) 2 (Create_raises Connection_or_Tweepy),
       Retry_sleep 15,
       Create_tweet (lit ''p'') (Quote_tweet_id (Id_int 7)) 3 (Create_raises Connection_or_Tweepy)])"
  by (simp add: post_quote_tweet_def retry_unfold create_unreachable_def create_target_def lit_def)

lemma post_quote_tweet_fatal_example:
  "post_quote_tweet create_fatal (Id_int 7) (lit ''p'') [lit ''a'', lit ''b''] 4 15 =
     (Inl Other_exception,
      [Create_tweet (lit ''p'') (Quote_tweet_id (Id_int 7)) 0 (Created (Some (Id_str (lit ''100'')))),
       Create_tweet (lit ''a'') (In_reply_to_tweet_id (Id_str (lit ''100''))) 0
         (Create_raises Other_exception)])"
  by (simp add: post_quote_tweet_def retry_unfold create_fatal_def create_target_def lit_def)

lemma post_quote_tweet_blank_id_example:
  "post_quote_tweet create_blank_id (Id_int 7) (lit ''p'') [lit ''a''] 4 15 =
     (Inr (Some (\<lparr>posted_id = Some (Id_str []), posted_text = lit ''p''\<rparr>,
                 [\<lparr>posted_id = Some (Id_str []), posted_text = lit ''a''\<rparr>])),
      [Create_tweet (lit ''p'') (Quote_tweet_id (Id_int 7)) 0 (Created (Some (Id_str []))),
       Create_tweet (lit ''a'') (Quote_tweet_id (Id_int 7)) 0 (Created (Some (Id_str [])))])"
  by (simp add: post_quote_tweet_def retry_unfold create_blank_id_def create_target_def lit_def)

lemma retry_eligible_example: "retry_eligible create_example"
  by (simp add: retry_eligible_def create_example_def lit_def)

section \<open>The scheduler\<close>

lemma logged_logged: "logged b (logged a s) = logged (a @ b) s"
  by (simp add: logged_def)

lemma logged_Nil: "logged [] s = s"
  by (simp add: logged_def)

lemma log_logged: "log (logged evs s) = log s @ evs"
  by (simp add: logged_def)

lemma ids_logged: "processed_tweet_ids (logged evs s) = processed_tweet_ids s"
  by (simp add: logged_def)



lemma post_quote_tweet_events:
  "post_quote_tweet create q primary thread R d = (r, evs) \<Longrightarrow>
     \<forall>ev \<in> set evs. publisher_event ev"
proof -
  assume run: "post_quote_tweet create q primary thread R d = (r, evs)"
  obtain r1 k1 evs1 where unit:
    "post_tweet_with_retry create q R d primary None 0 0 = (r1, k1, evs1)"
    by (cases "post_tweet_with_retry create q R d primary None 0 0") auto
  have e1: "\<forall>ev \<in> set evs1. publisher_event ev"
    using post_tweet_with_retry_events[OF unit] .
  show ?thesis
  proof (cases r1)
    case (Inl e)
    then show ?thesis using run unit e1 by (simp add: post_quote_tweet_def)
  next
    case (Inr res)
    show ?thesis
    proof (cases res)
      case None
      then show ?thesis using run unit e1 Inr by (simp add: post_quote_tweet_def)
    next
      case (Some p)
      obtain r2 k2 evs2 where rest:
        "post_thread create q R d (posted_id p) [] k1 thread = (r2, k2, evs2)"
        by (cases "post_thread create q R d (posted_id p) [] k1 thread") auto
      have e2: "\<forall>ev \<in> set evs2. publisher_event ev" using post_thread_events[OF rest] .
      show ?thesis using run unit e1 e2 Inr Some rest
        by (cases r2) (auto simp: post_quote_tweet_def split: if_splits)
    qed
  qed
qed

lemma post_reply_from_events:
  "post_reply_from create t msg R d k n = (r, evs) \<Longrightarrow> \<forall>ev \<in> set evs. publisher_event ev"
proof (induction create t msg R d k n arbitrary: r evs rule: post_reply_from.induct)
  case (1 create t msg R d k n)
  show ?case
  proof (cases "n < R")
    case False
    then show ?thesis using "1.prems" by (simp add: post_reply_from.simps)
  next
    case True
    show ?thesis
    proof (cases "create k")
      case (Created tid)
      then show ?thesis using True "1.prems"
        by (auto simp: post_reply_from.simps[of create t msg R d k n])
    next
      case (Create_raises e)
      show ?thesis
      proof (cases "e = Connection_or_Tweepy")
        case False
        then show ?thesis using True Create_raises "1.prems"
          by (auto simp: post_reply_from.simps[of create t msg R d k n])
      next
        case e: True
        obtain r1 evs1 where rec:
          "post_reply_from create t msg R d (Suc k) (Suc n) = (r1, evs1)"
          by (cases "post_reply_from create t msg R d (Suc k) (Suc n)") auto
        have ih: "\<forall>ev \<in> set evs1. publisher_event ev"
          using "1.IH"[OF True Create_raises e rec] .
        have "evs = Create_tweet msg (In_reply_to_tweet_id t) n (Create_raises e)
                # (if n < R - 1 then [Retry_sleep d] else []) @ evs1"
          using True Create_raises e rec "1.prems"
          by (simp add: post_reply_from.simps[of create t msg R d k n])
        then show ?thesis using ih by auto
      qed
    qed
  qed
qed

lemma publish_cases:
  "publish sv tw q msg th s = (r, s1) \<Longrightarrow>
     \<exists>pevs. (\<forall>ev \<in> set pevs. publisher_event ev)
       \<and> ((\<exists>e. r = Inl e \<and> s1 = logged pevs s)
          \<or> (\<exists>b. r = Inr b \<and> s1 = logged (pevs @ [Post_result b]) s))"
proof (cases q)
  case True
  assume run: "publish sv tw q msg th s = (r, s1)"
  obtain r1 evs1 where p:
    "post_quote_tweet (create_tweet sv) (Id_int (tweet_id tw)) msg th 4 15 = (r1, evs1)"
    by (cases "post_quote_tweet (create_tweet sv) (Id_int (tweet_id tw)) msg th 4 15") auto
  have "\<forall>ev \<in> set evs1. publisher_event ev" using post_quote_tweet_events[OF p] .
  then show ?thesis using run True p by (cases r1) (auto simp: publish_def)
next
  case False
  assume run: "publish sv tw q msg th s = (r, s1)"
  obtain r1 evs1 where p:
    "post_reply (create_tweet sv) (Id_int (tweet_id tw)) msg 4 15 = (r1, evs1)"
    by (cases "post_reply (create_tweet sv) (Id_int (tweet_id tw)) msg 4 15") auto
  have "\<forall>ev \<in> set evs1. publisher_event ev"
    using post_reply_from_events p unfolding post_reply_def by blast
  then show ?thesis using run False p by (cases r1) (auto simp: publish_def)
qed

lemma research_frame:
  "research sv topic s = (r, s1) \<Longrightarrow> \<exists>evs. s1 = logged evs s \<and> (\<forall>ev \<in> set evs. client_call ev)"
proof -
  assume "research sv topic s = (r, s1)"
  then have "s1 = logged [] s \<or> s1 = logged [Called Research_topic] s"
    by (auto simp: research_def logged_Nil split: option.splits if_splits)
  then show ?thesis by auto
qed

lemma generate_frame:
  "generate sv ctx q s = (r, s1) \<Longrightarrow> \<exists>evs. s1 = logged evs s \<and> (\<forall>ev \<in> set evs. client_call ev)"
proof -
  assume "generate sv ctx q s = (r, s1)"
  then have "s1 = logged [Called Generate_quote_tweet] s \<or> s1 = logged [Called Generate_reply] s"
    by (auto simp: generate_def split: sum.splits prod.splits if_splits)
  then show ?thesis by auto
qed

lemma handle_selected_tweet_decomp:
  "handle_selected_tweet sv (Some tw) s = (r, s') \<Longrightarrow>
     (\<exists>evs e. (\<forall>ev \<in> set evs. client_call ev) \<and> s' = logged evs s \<and> r = Inl e)
     \<or> (\<exists>evs ctx q s3 rt th.
           (\<forall>ev \<in> set evs. client_call ev)
           \<and> generate sv ctx q s3 = (Inr (rt, th), logged evs s)
           \<and> (case rt of
                None \<Rightarrow> r = Inr () \<and> s' = logged evs s
              | Some msg \<Rightarrow>
                  if msg = [] then r = Inr () \<and> s' = logged evs s
                  else (\<exists>r5 s5. publish sv tw q msg th (logged evs s) = (r5, s5)
                         \<and> (case r5 of
                              Inl e \<Rightarrow> r = Inl e \<and> s' = s5
                            | Inr b \<Rightarrow>
                                r = Inr ()
                                \<and> s' = (if b then s5\<lparr>processed_tweet_ids :=
                                            insert (tweet_id tw) (processed_tweet_ids s5)\<rparr>
                                        else s5)))))"
proof -
  assume run: "handle_selected_tweet sv (Some tw) s = (r, s')"
  let ?s1 = "logged [Called Identify_research_topic] s"
  have exc: "?thesis"
    if "\<forall>ev \<in> set evs. client_call ev" "s' = logged evs s" "r = Inl e" for evs e
    using that by blast
  show ?thesis
  proof (cases "identify_research_topic
                  (topic_answer sv \<lparr>ctx_tweet = tw, research_summary = None\<rparr>)")
    case (Inl e)
    then have "r = Inl e \<and> s' = ?s1"
      using run by (simp add: handle_selected_tweet_def and_then_def)
    then show ?thesis by (intro exc[of "[Called Identify_research_topic]" e]) auto
  next
    case topic: (Inr topic)
    obtain r2 s2 where res: "research sv topic ?s1 = (r2, s2)"
      by (cases "research sv topic ?s1") auto
    obtain evs2 where s2: "s2 = logged evs2 ?s1" and c2: "\<forall>ev \<in> set evs2. client_call ev"
      using research_frame[OF res] by blast
    show ?thesis
    proof (cases r2)
      case (Inl e)
      then have "r = Inl e \<and> s' = s2"
        using run topic res by (simp add: handle_selected_tweet_def and_then_def)
      then show ?thesis using s2 c2
        by (intro exc[of "[Called Identify_research_topic] @ evs2" e])
           (auto simp: logged_logged)
    next
      case summary: (Inr summary)
      let ?ctx = "\<lparr>ctx_tweet = tw, research_summary = Some (or_placeholder summary)\<rparr>"
      let ?s3 = "logged [Called Decide_quote_or_reply] s2"
      show ?thesis
      proof (cases "decide_quote_or_reply (decide_answer sv ?ctx)")
        case (Inl e)
        then have "r = Inl e \<and> s' = ?s3"
          using run topic res summary
          by (simp add: handle_selected_tweet_def and_then_def Let_def)
        then show ?thesis using s2 c2
          by (intro exc[of "[Called Identify_research_topic] @ evs2
                              @ [Called Decide_quote_or_reply]" e])
             (auto simp: logged_logged)
      next
        case q: (Inr q)
        obtain r4 s4 where gen: "generate sv ?ctx q ?s3 = (r4, s4)"
          by (cases "generate sv ?ctx q ?s3") auto
        obtain evs4 where s4: "s4 = logged evs4 ?s3" and c4: "\<forall>ev \<in> set evs4. client_call ev"
          using generate_frame[OF gen] by blast
        define evs where "evs = [Called Identify_research_topic] @ evs2
                                  @ [Called Decide_quote_or_reply] @ evs4"
        have s4': "s4 = logged evs s" and cs: "\<forall>ev \<in> set evs. client_call ev"
          using s4 s2 c2 c4 by (auto simp: logged_logged evs_def)
        show ?thesis
        proof (cases r4)
          case (Inl e)
          then have "r = Inl e \<and> s' = s4"
            using run topic res summary q gen
            by (simp add: handle_selected_tweet_def and_then_def Let_def)
          then show ?thesis using s4' cs by (intro exc[of evs e]) auto
        next
          case (Inr p)
          obtain rt th where p: "p = (rt, th)" by (cases p)
          have gen': "generate sv ?ctx q ?s3 = (Inr (rt, th), logged evs s)"
            using gen Inr p s4' by simp
          have rest: "(case rt of
                None \<Rightarrow> r = Inr () \<and> s' = logged evs s
              | Some msg \<Rightarrow>
                  if msg = [] then r = Inr () \<and> s' = logged evs s
                  else (\<exists>r5 s5. publish sv tw q msg th (logged evs s) = (r5, s5)
                         \<and> (case r5 of
                              Inl e \<Rightarrow> r = Inl e \<and> s' = s5
                            | Inr b \<Rightarrow>
                                r = Inr ()
                                \<and> s' = (if b then s5\<lparr>processed_tweet_ids :=
                                            insert (tweet_id tw) (processed_tweet_ids s5)\<rparr>
                                        else s5))))"
            using run topic res summary q gen' s4'
            by (auto simp: handle_selected_tweet_def and_then_def Let_def
                split: option.splits sum.splits prod.splits if_splits)
          show ?thesis using cs gen' rest by blast
        qed
      qed
    qed
  qed
qed

lemma client_call_body_event: "client_call ev \<Longrightarrow> body_event ev"
  by (cases ev) auto

lemma publisher_event_body_event: "publisher_event ev \<Longrightarrow> body_event ev"
  by (cases ev) auto

lemma handle_selected_tweet_cases:
  "handle_selected_tweet sv selected s = (r, s') \<Longrightarrow>
     \<exists>pre. (\<forall>ev \<in> set pre. body_event ev)
       \<and> ((log s' = log s @ pre \<and> processed_tweet_ids s' = processed_tweet_ids s)
          \<or> (log s' = log s @ pre @ [Post_result False] \<and> r = Inr ()
              \<and> processed_tweet_ids s' = processed_tweet_ids s)
          \<or> (\<exists>tw. selected = Some tw \<and> log s' = log s @ pre @ [Post_result True] \<and> r = Inr ()
                \<and> processed_tweet_ids s' = insert (tweet_id tw) (processed_tweet_ids s)))"
proof (cases selected)
  case None
  assume "handle_selected_tweet sv selected s = (r, s')"
  then have "s' = s" using None by (simp add: handle_selected_tweet_def)
  then show ?thesis by (intro exI[of _ "[]"]) simp
next
  case (Some tw)
  assume "handle_selected_tweet sv selected s = (r, s')"
  then have run: "handle_selected_tweet sv (Some tw) s = (r, s')" using Some by simp
  have quiet: ?thesis if "\<forall>ev \<in> set evs. client_call ev" "s' = logged evs s" for evs
    using that by (intro exI[of _ evs]) (auto simp: log_logged ids_logged client_call_body_event)
  from handle_selected_tweet_decomp[OF run] show ?thesis
  proof (elim disjE exE conjE)
    fix evs e
    assume "\<forall>ev \<in> set evs. client_call ev" "s' = logged evs s"
    then show ?thesis by (rule quiet)
  next
    fix evs ctx q s3 rt th
    assume cs: "\<forall>ev \<in> set evs. client_call ev"
      and rest: "case rt of
                None \<Rightarrow> r = Inr () \<and> s' = logged evs s
              | Some msg \<Rightarrow>
                  if msg = [] then r = Inr () \<and> s' = logged evs s
                  else (\<exists>r5 s5. publish sv tw q msg th (logged evs s) = (r5, s5)
                         \<and> (case r5 of
                              Inl e \<Rightarrow> r = Inl e \<and> s' = s5
                            | Inr b \<Rightarrow>
                                r = Inr ()
                                \<and> s' = (if b then s5\<lparr>processed_tweet_ids :=
                                            insert (tweet_id tw) (processed_tweet_ids s5)\<rparr>
                                        else s5)))"
    show ?thesis
    proof (cases rt)
      case None
      then show ?thesis using rest cs quiet by simp
    next
      case rt: (Some msg)
      show ?thesis
      proof (cases "msg = []")
        case True
        then show ?thesis using rest cs quiet rt by simp
      next
        case False
        then obtain r5 s5 where pub: "publish sv tw q msg th (logged evs s) = (r5, s5)"
          and fin: "case r5 of
                      Inl e \<Rightarrow> r = Inl e \<and> s' = s5
                    | Inr b \<Rightarrow>
                        r = Inr ()
                        \<and> s' = (if b then s5\<lparr>processed_tweet_ids :=
                                    insert (tweet_id tw) (processed_tweet_ids s5)\<rparr>
                                else s5)"
          using rest rt by auto
        obtain pevs where pe: "\<forall>ev \<in> set pevs. publisher_event ev"
          and pc: "(\<exists>e. r5 = Inl e \<and> s5 = logged pevs (logged evs s))
                   \<or> (\<exists>b. r5 = Inr b \<and> s5 = logged (pevs @ [Post_result b]) (logged evs s))"
          using publish_cases[OF pub] by blast
        have pre: "\<forall>ev \<in> set (evs @ pevs). body_event ev"
          using cs pe client_call_body_event publisher_event_body_event by auto
        from pc show ?thesis
        proof (elim disjE exE conjE)
          fix e assume "r5 = Inl e" "s5 = logged pevs (logged evs s)"
          then have "log s' = log s @ (evs @ pevs)
                     \<and> processed_tweet_ids s' = processed_tweet_ids s"
            using fin by (simp add: log_logged ids_logged)
          then show ?thesis using pre by blast
        next
          fix b assume b: "r5 = Inr b" "s5 = logged (pevs @ [Post_result b]) (logged evs s)"
          show ?thesis
          proof (cases b)
            case True
            then have "log s' = log s @ (evs @ pevs) @ [Post_result True] \<and> r = Inr ()
                \<and> processed_tweet_ids s' = insert (tweet_id tw) (processed_tweet_ids s)"
              using fin b by (simp add: log_logged ids_logged)
            then show ?thesis using pre Some by blast
          next
            case False
            then have "log s' = log s @ (evs @ pevs) @ [Post_result False] \<and> r = Inr ()
                \<and> processed_tweet_ids s' = processed_tweet_ids s"
              using fin b by (simp add: log_logged ids_logged)
            then show ?thesis using pre by blast
          qed
        qed
      qed
    qed
  qed
qed

lemma process_fetched_tweets_frame:
  "process_fetched_tweets sv ftw s = (r, s1) \<Longrightarrow>
     s1 = s \<or> s1 = logged [Called Select_tweet] s"
  by (auto simp: process_fetched_tweets_def and_then_def Let_def
      split: if_splits sum.splits)

lemma cycle_body_cases:
  "cycle_body sv s = (r, s') \<Longrightarrow>
     \<exists>pre. (\<forall>ev \<in> set pre. body_event ev)
       \<and> ((log s' = log s @ pre \<and> processed_tweet_ids s' = processed_tweet_ids s)
          \<or> (log s' = log s @ pre @ [Post_result False] \<and> r = Inr Fall_through
              \<and> processed_tweet_ids s' = processed_tweet_ids s)
          \<or> (\<exists>ftw tw u. fetched sv = Inr ftw
                \<and> fst (process_fetched_tweets sv ftw (logged [Fetch_tweets] s)) = Inr (Some tw, u)
                \<and> log s' = log s @ pre @ [Post_result True] \<and> r = Inr Fall_through
                \<and> processed_tweet_ids s' = insert (tweet_id tw) (processed_tweet_ids s)))"
proof -
  assume run: "cycle_body sv s = (r, s')"
  let ?s0 = "logged [Fetch_tweets] s"
  have quiet: ?thesis
    if "\<forall>ev \<in> set evs. body_event ev" "log s' = log s @ evs"
       "processed_tweet_ids s' = processed_tweet_ids s" for evs
    using that by blast
  show ?thesis
  proof (cases "fetched sv")
    case (Inl e)
    then have "s' = ?s0" using run by (simp add: cycle_body_def and_then_def)
    then show ?thesis by (intro quiet[of "[Fetch_tweets]"]) (auto simp: log_logged ids_logged)
  next
    case ftw: (Inr ftw)
    show ?thesis
    proof (cases "ftw = []")
      case True
      then have "s' = ?s0" using run ftw by (simp add: cycle_body_def and_then_def)
      then show ?thesis by (intro quiet[of "[Fetch_tweets]"]) (auto simp: log_logged ids_logged)
    next
      case False
      obtain r1 s1 where pr: "process_fetched_tweets sv ftw ?s0 = (r1, s1)"
        by (cases "process_fetched_tweets sv ftw ?s0") auto
      obtain evs1 where s1: "s1 = logged ([Fetch_tweets] @ evs1) s"
        and b1: "\<forall>ev \<in> set ([Fetch_tweets] @ evs1). body_event ev"
      proof -
        from process_fetched_tweets_frame[OF pr]
        have "s1 = logged ([Fetch_tweets] @ []) s
              \<or> s1 = logged ([Fetch_tweets] @ [Called Select_tweet]) s"
          by (auto simp: logged_logged)
        then show ?thesis using that by auto
      qed
      show ?thesis
      proof (cases r1)
        case (Inl e)
        then have "s' = s1" using run ftw False pr by (simp add: cycle_body_def and_then_def)
        then show ?thesis using s1 b1
          by (intro quiet[of "[Fetch_tweets] @ evs1"]) (auto simp: log_logged ids_logged)
      next
        case (Inr p)
        obtain selected u where p: "p = (selected, u)" by (cases p)
        obtain r2 s2 where h: "handle_selected_tweet sv selected s1 = (r2, s2)"
          by (cases "handle_selected_tweet sv selected s1") auto
        have fin: "s' = s2" "r2 = Inr () \<longrightarrow> r = Inr Fall_through"
          using run ftw False pr Inr p h
          by (auto simp: cycle_body_def and_then_def split: sum.splits)
        obtain pre where pre: "\<forall>ev \<in> set pre. body_event ev"
          and cases: "(log s2 = log s1 @ pre \<and> processed_tweet_ids s2 = processed_tweet_ids s1)
          \<or> (log s2 = log s1 @ pre @ [Post_result False] \<and> r2 = Inr ()
              \<and> processed_tweet_ids s2 = processed_tweet_ids s1)
          \<or> (\<exists>tw. selected = Some tw \<and> log s2 = log s1 @ pre @ [Post_result True] \<and> r2 = Inr ()
                \<and> processed_tweet_ids s2 = insert (tweet_id tw) (processed_tweet_ids s1))"
          using handle_selected_tweet_cases[OF h] by blast
        let ?pre = "[Fetch_tweets] @ evs1 @ pre"
        have all: "\<forall>ev \<in> set ?pre. body_event ev" using b1 pre by auto
        from cases show ?thesis
        proof (elim disjE exE conjE)
          assume "log s2 = log s1 @ pre" "processed_tweet_ids s2 = processed_tweet_ids s1"
          then have "log s' = log s @ ?pre \<and> processed_tweet_ids s' = processed_tweet_ids s"
            using fin s1 by (simp add: log_logged ids_logged)
          then show ?thesis using all by blast
        next
          assume "log s2 = log s1 @ pre @ [Post_result False]" "r2 = Inr ()"
            "processed_tweet_ids s2 = processed_tweet_ids s1"
          then have "log s' = log s @ ?pre @ [Post_result False] \<and> r = Inr Fall_through
                     \<and> processed_tweet_ids s' = processed_tweet_ids s"
            using fin s1 by (simp add: log_logged ids_logged)
          then show ?thesis using all by blast
        next
          fix tw
          assume "selected = Some tw" "log s2 = log s1 @ pre @ [Post_result True]" "r2 = Inr ()"
            "processed_tweet_ids s2 = insert (tweet_id tw) (processed_tweet_ids s1)"
          then have "fetched sv = Inr ftw
                \<and> fst (process_fetched_tweets sv ftw (logged [Fetch_tweets] s)) = Inr (Some tw, u)
                \<and> log s' = log s @ ?pre @ [Post_result True] \<and> r = Inr Fall_through
                \<and> processed_tweet_ids s' = insert (tweet_id tw) (processed_tweet_ids s)"
            using fin s1 ftw pr Inr p by (simp add: log_logged ids_logged)
          then show ?thesis using all by blast
        qed
      qed
    qed
  qed
qed




lemma iteration_stops:
  "0 \<le> cycle_time rnd CL (uniform sv) \<Longrightarrow> iteration rnd CL sv s = (Inl e, s') \<Longrightarrow>
     e = Base_exception"
  by (auto simp: iteration_def sleep_step_def Let_def is_Exception_def
      split: prod.splits sum.splits flow.splits if_splits)

lemma main_cycle_stops:
  "\<forall>j. 0 \<le> cycle_time rnd CL (uniform (world j)) \<Longrightarrow>
   fst (main_cycle rnd CL world i n s) = Stopped e \<Longrightarrow> e = Base_exception"
proof (induction n arbitrary: i s)
  case 0
  then show ?case by simp
next
  case (Suc n)
  obtain r s1 where it: "iteration rnd CL (world i) s = (r, s1)"
    by (cases "iteration rnd CL (world i) s") auto
  show ?case
  proof (cases r)
    case (Inl e1)
    then have "e = e1" using Suc.prems(2) it by simp
    moreover have "e1 = Base_exception"
      using iteration_stops[of rnd CL "world i" s e1 s1] Suc.prems(1) it Inl by blast
    ultimately show ?thesis by simp
  next
    case (Inr u)
    then have "fst (main_cycle rnd CL world (Suc i) n s1) = Stopped e"
      using Suc.prems(2) it by simp
    then show ?thesis using Suc.IH Suc.prems(1) by blast
  qed
qed

lemma py_str_42: "py_str 42 = lit ''42''"
  by (simp add: py_str_def digits.simps[of 42] digits.simps[of 4] lit_def)




lemma cycle_body_down:
  "cycle_body services_down state_example = (Inl Other_exception, logged [Fetch_tweets] state_example)"
  by (simp add: cycle_body_def and_then_def services_down_def)

lemma cycle_time_example: "cycle_time (\<lambda>x. x) 100 (uniform services_down) = 93"
  by (simp add: services_down_def services_example_def cycle_time_def py_int_def)












lemma process_fetched_tweets_no_selection:
  "filter (\<lambda>tw. tweet_id tw \<notin> processed_tweet_ids s) ftw = unprocessed \<Longrightarrow>
   unprocessed \<noteq> [] \<Longrightarrow>
   (\<exists>e. select_answer sv unprocessed = Raises e \<and> is_Exception e)
   \<or> (\<exists>c. select_answer sv unprocessed = Content c \<and> parse_response (py_strip c) = None)
   \<or> (\<exists>c a. select_answer sv unprocessed = Content c
         \<and> parse_response (py_strip c) = Some a
         \<and> (py_lower a = lit ''none'' \<or> (\<forall>tw \<in> set unprocessed. py_str (tweet_id tw) \<noteq> a))) \<Longrightarrow>
     \<exists>u. process_fetched_tweets sv ftw s = (Inr (None, u), logged [Called Select_tweet] s)"
proof -
  assume un: "filter (\<lambda>tw. tweet_id tw \<notin> processed_tweet_ids s) ftw = unprocessed"
    and ne: "unprocessed \<noteq> []"
    and no: "(\<exists>e. select_answer sv unprocessed = Raises e \<and> is_Exception e)
   \<or> (\<exists>c. select_answer sv unprocessed = Content c \<and> parse_response (py_strip c) = None)
   \<or> (\<exists>c a. select_answer sv unprocessed = Content c
         \<and> parse_response (py_strip c) = Some a
         \<and> (py_lower a = lit ''none'' \<or> (\<forall>tw \<in> set unprocessed. py_str (tweet_id tw) \<noteq> a)))"
  have ids: "processed_tweet_ids (logged [Called Select_tweet] s) = processed_tweet_ids s"
    by (simp add: ids_logged)
  have "select_tweet (select_answer sv unprocessed) = Inr None
        \<or> (\<exists>a. select_tweet (select_answer sv unprocessed) = Inr (Some a)
              \<and> (\<forall>tw \<in> set unprocessed. py_str (tweet_id tw) \<noteq> a))"
    using no
  proof (elim disjE exE conjE)
    fix e assume "select_answer sv unprocessed = Raises e" "is_Exception e"
    then show ?thesis by (simp add: select_tweet_def)
  next
    fix c assume "select_answer sv unprocessed = Content c" "parse_response (py_strip c) = None"
    then show ?thesis by (simp add: select_tweet_def)
  next
    fix c a
    assume "select_answer sv unprocessed = Content c" "parse_response (py_strip c) = Some a"
      "py_lower a = lit ''none''"
    then show ?thesis by (simp add: select_tweet_def)
  next
    fix c a
    assume "select_answer sv unprocessed = Content c" "parse_response (py_strip c) = Some a"
      "\<forall>tw \<in> set unprocessed. py_str (tweet_id tw) \<noteq> a"
    then show ?thesis by (cases "py_lower a = lit ''none''") (simp_all add: select_tweet_def)
  qed
  then consider
      (none) "select_tweet (select_answer sv unprocessed) = Inr None"
    | (nomatch) a where "select_tweet (select_answer sv unprocessed) = Inr (Some a)"
        "\<forall>tw \<in> set unprocessed. py_str (tweet_id tw) \<noteq> a"
    by blast
  then show ?thesis
  proof cases
    case none
    then show ?thesis using un ne
      by (simp add: process_fetched_tweets_def and_then_def truthy_def)
  next
    case nomatch
    then have "find (\<lambda>tweet. Some (py_str (tweet_id tweet)) = Some a) unprocessed = None"
      by (simp add: find_None_iff)
    then show ?thesis using un ne nomatch(1)
      by (auto simp: process_fetched_tweets_def and_then_def truthy_def)
  qed
qed

lemma empty_fetch_continues:
  "fetched sv = Inr [] \<Longrightarrow> iteration rnd CL sv s = (Inr (), logged [Fetch_tweets] s)"
  by (simp add: iteration_def cycle_body_def and_then_def)

lemma cycle_body_Continue:
  "cycle_body sv s = (Inr Continue, sb) \<Longrightarrow> fetched sv = Inr []"
  by (auto simp: cycle_body_def and_then_def split: sum.splits if_splits prod.splits)

lemma iteration_sleeps_unless_fetch_empty:
  "iteration rnd CL sv s = (Inr (), s') \<Longrightarrow> fetched sv \<noteq> Inr [] \<Longrightarrow>
     \<exists>evs. log s' = log s @ evs @ [Sleep (cycle_time rnd CL (uniform sv))]"
proof -
  assume run: "iteration rnd CL sv s = (Inr (), s')" and fetch: "fetched sv \<noteq> Inr []"
  obtain rb sb where body: "cycle_body sv s = (rb, sb)" by (cases "cycle_body sv s") auto
  obtain pre where pre: "log sb = log s @ pre"
    using cycle_body_cases[OF body] by auto
  have nc: "rb \<noteq> Inr Continue" using body fetch cycle_body_Continue by blast
  have slept: "log s1 = log s0 @ [Sleep (cycle_time rnd CL (uniform sv))]"
    if "sleep_step rnd CL sv s0 = (Inr (), s1)" for s0 s1
    using that by (auto simp: sleep_step_def Let_def log_logged split: if_splits)
  show ?thesis
  proof (cases rb)
    case (Inl e)
    then have "sleep_step rnd CL sv (logged [Cycle_error e] sb) = (Inr (), s')"
      using run body by (auto simp: iteration_def split: if_splits)
    then have "log s' = log s @ (pre @ [Cycle_error e])
                 @ [Sleep (cycle_time rnd CL (uniform sv))]"
      using slept pre by (simp add: log_logged)
    then show ?thesis by blast
  next
    case (Inr f)
    then have "f = Fall_through" using nc by (cases f) auto
    then have "sleep_step rnd CL sv sb = (Inr (), s')"
      using run body Inr by (simp add: iteration_def)
    then have "log s' = log s @ pre @ [Sleep (cycle_time rnd CL (uniform sv))]"
      using slept pre by simp
    then show ?thesis by blast
  qed
qed

lemma select_tweet_raises: "select_tweet a = Inl e \<Longrightarrow> a = Raises e"
  by (auto simp: select_tweet_def split: completion.splits option.splits if_splits)

lemma identify_research_topic_raises: "identify_research_topic a = Inl e \<Longrightarrow> a = Raises e"
  by (auto simp: identify_research_topic_def split: completion.splits option.splits if_splits)

lemma research_topic_raises: "research_topic a = Inl e \<Longrightarrow> a = Raises e"
  by (auto simp: research_topic_def split: completion.splits if_splits)

lemma decide_quote_or_reply_raises: "decide_quote_or_reply a = Inl e \<Longrightarrow> a = Raises e"
  by (auto simp: decide_quote_or_reply_def split: completion.splits option.splits if_splits)

lemma reply_attempt_Propagate: "reply_attempt a = Propagate e \<Longrightarrow> a = Raises e"
  by (auto simp: reply_attempt_def split: completion.splits option.splits if_splits prod.splits)

lemma quote_attempt_Propagate: "quote_attempt a = Propagate e \<Longrightarrow> a = Raises e"
  by (auto simp: quote_attempt_def split: completion.splits option.splits if_splits prod.splits)

lemma generate_reply_from_raises:
  "generate_reply_from ask n a = Inl e \<Longrightarrow> \<exists>i. ask i = Raises e"
proof (induction ask n a rule: generate_reply_from.induct)
  case (1 ask max_attempts attempt)
  show ?case
  proof (cases "attempt < max_attempts")
    case False
    then show ?thesis using "1.prems" by (simp add: generate_reply_from.simps)
  next
    case True
    show ?thesis
    proof (cases "reply_attempt (ask attempt)")
      case Retry
      then have "generate_reply_from ask max_attempts (Suc attempt) = Inl e"
        using True "1.prems" by (simp add: generate_reply_from.simps[of ask max_attempts attempt])
      then show ?thesis using "1.IH" True Retry by blast
    next
      case (Return p)
      then show ?thesis using True "1.prems"
        by (cases p) (simp add: generate_reply_from.simps[of ask max_attempts attempt])
    next
      case (Propagate e')
      then have "e' = e" using True "1.prems"
        by (simp add: generate_reply_from.simps[of ask max_attempts attempt])
      then show ?thesis using Propagate reply_attempt_Propagate by blast
    qed
  qed
qed

lemma generate_quote_tweet_from_raises:
  "generate_quote_tweet_from ask n a = Inl e \<Longrightarrow> \<exists>i. ask i = Raises e"
proof (induction ask n a rule: generate_quote_tweet_from.induct)
  case (1 ask max_attempts attempt)
  show ?case
  proof (cases "attempt < max_attempts")
    case False
    then show ?thesis using "1.prems" by (simp add: generate_quote_tweet_from.simps)
  next
    case True
    show ?thesis
    proof (cases "quote_attempt (ask attempt)")
      case Retry
      then have "generate_quote_tweet_from ask max_attempts (Suc attempt) = Inl e"
        using True "1.prems"
        by (simp add: generate_quote_tweet_from.simps[of ask max_attempts attempt])
      then show ?thesis using "1.IH" True Retry by blast
    next
      case (Return p)
      then show ?thesis using True "1.prems"
        by (cases p) (auto simp: generate_quote_tweet_from.simps[of ask max_attempts attempt])
    next
      case (Propagate e')
      then have "e' = e" using True "1.prems"
        by (simp add: generate_quote_tweet_from.simps[of ask max_attempts attempt])
      then show ?thesis using Propagate quote_attempt_Propagate by blast
    qed
  qed
qed

lemma post_tweet_with_retry_raises:
  "post_tweet_with_retry create q R d msg a k n = (Inl e, k', evs) \<Longrightarrow>
     \<exists>j. create j = Create_raises e"
proof (induction create q R d msg a k n arbitrary: k' evs rule: post_tweet_with_retry.induct)
  case (1 create q R d msg a k n)
  show ?case
  proof (cases "n < R")
    case False
    then show ?thesis using "1.prems" by (simp add: post_tweet_with_retry.simps)
  next
    case True
    show ?thesis
    proof (cases "create k")
      case (Created tid)
      then show ?thesis using True "1.prems"
        by (simp add: post_tweet_with_retry.simps[of create q R d msg a k n])
    next
      case (Create_raises e')
      show ?thesis
      proof (cases "e' = Connection_or_Tweepy")
        case False
        then have "e' = e" using True Create_raises "1.prems"
          by (simp add: post_tweet_with_retry.simps[of create q R d msg a k n])
        then show ?thesis using Create_raises by blast
      next
        case c: True
        obtain r1 k1 evs1 where rec:
          "post_tweet_with_retry create q R d msg a (Suc k) (Suc n) = (r1, k1, evs1)"
          by (cases "post_tweet_with_retry create q R d msg a (Suc k) (Suc n)") auto
        have "r1 = Inl e" using True Create_raises c rec "1.prems"
          by (simp add: post_tweet_with_retry.simps[of create q R d msg a k n])
        then show ?thesis using "1.IH"[OF True Create_raises c] rec by blast
      qed
    qed
  qed
qed

lemma post_thread_raises:
  "post_thread create q R d a acc k thread = (Inl e, k', evs) \<Longrightarrow>
     \<exists>j. create j = Create_raises e"
proof (induction thread arbitrary: a acc k k' evs)
  case Nil
  then show ?case by simp
next
  case (Cons seg rest)
  obtain r1 k1 evs1 where unit:
    "post_tweet_with_retry create q R d seg a k 0 = (r1, k1, evs1)"
    by (cases "post_tweet_with_retry create q R d seg a k 0") auto
  show ?case
  proof (cases r1)
    case (Inl e1)
    then have "e1 = e" using Cons.prems unit by simp
    then show ?thesis using post_tweet_with_retry_raises unit Inl by blast
  next
    case (Inr res)
    show ?thesis
    proof (cases res)
      case None
      obtain r2 k2 evs2 where rest: "post_thread create q R d a acc k1 rest = (r2, k2, evs2)"
        by (cases "post_thread create q R d a acc k1 rest") auto
      have "r2 = Inl e" using Cons.prems unit Inr None rest by simp
      then show ?thesis using Cons.IH rest by blast
    next
      case (Some p)
      obtain r2 k2 evs2 where rest:
        "post_thread create q R d (posted_id p) (acc @ [p]) k1 rest = (r2, k2, evs2)"
        by (cases "post_thread create q R d (posted_id p) (acc @ [p]) k1 rest") auto
      have "r2 = Inl e" using Cons.prems unit Inr Some rest by simp
      then show ?thesis using Cons.IH rest by blast
    qed
  qed
qed

lemma post_quote_tweet_raises:
  "post_quote_tweet create q primary thread R d = (Inl e, evs) \<Longrightarrow>
     \<exists>j. create j = Create_raises e"
proof -
  assume run: "post_quote_tweet create q primary thread R d = (Inl e, evs)"
  obtain r1 k1 evs1 where unit:
    "post_tweet_with_retry create q R d primary None 0 0 = (r1, k1, evs1)"
    by (cases "post_tweet_with_retry create q R d primary None 0 0") auto
  show ?thesis
  proof (cases r1)
    case (Inl e1)
    then have "e1 = e" using run unit by (simp add: post_quote_tweet_def)
    then show ?thesis using post_tweet_with_retry_raises unit Inl by blast
  next
    case (Inr res)
    show ?thesis
    proof (cases res)
      case None
      then show ?thesis using run unit Inr by (simp add: post_quote_tweet_def)
    next
      case (Some p)
      obtain r2 k2 evs2 where rest:
        "post_thread create q R d (posted_id p) [] k1 thread = (r2, k2, evs2)"
        by (cases "post_thread create q R d (posted_id p) [] k1 thread") auto
      have "r2 = Inl e" using run unit Inr Some rest
        by (cases r2) (auto simp: post_quote_tweet_def split: if_splits)
      then show ?thesis using post_thread_raises rest by blast
    qed
  qed
qed

lemma post_reply_from_raises:
  "post_reply_from create t msg R d k n = (Inl e, evs) \<Longrightarrow> \<exists>j. create j = Create_raises e"
proof (induction create t msg R d k n arbitrary: evs rule: post_reply_from.induct)
  case (1 create t msg R d k n)
  show ?case
  proof (cases "n < R")
    case False
    then show ?thesis using "1.prems" by (simp add: post_reply_from.simps)
  next
    case True
    show ?thesis
    proof (cases "create k")
      case (Created tid)
      then show ?thesis using True "1.prems"
        by (simp add: post_reply_from.simps[of create t msg R d k n])
    next
      case (Create_raises e')
      show ?thesis
      proof (cases "e' = Connection_or_Tweepy")
        case False
        then have "e' = e" using True Create_raises "1.prems"
          by (simp add: post_reply_from.simps[of create t msg R d k n])
        then show ?thesis using Create_raises by blast
      next
        case c: True
        obtain r1 evs1 where rec:
          "post_reply_from create t msg R d (Suc k) (Suc n) = (r1, evs1)"
          by (cases "post_reply_from create t msg R d (Suc k) (Suc n)") auto
        have "r1 = Inl e" using True Create_raises c rec "1.prems"
          by (simp add: post_reply_from.simps[of create t msg R d k n])
        then show ?thesis using "1.IH"[OF True Create_raises c] rec by blast
      qed
    qed
  qed
qed

lemma research_raises:
  "uninterrupted sv \<Longrightarrow> research sv topic s = (Inl e, s1) \<Longrightarrow> e \<noteq> Base_exception"
  by (auto simp: research_def uninterrupted_def split: option.splits if_splits
      dest!: research_topic_raises)

lemma generate_raises:
  "uninterrupted sv \<Longrightarrow> generate sv ctx q s = (Inl e, s1) \<Longrightarrow> e \<noteq> Base_exception"
proof -
  assume un: "uninterrupted sv" and run: "generate sv ctx q s = (Inl e, s1)"
  show ?thesis
  proof (cases q)
    case True
    then have "generate_quote_tweet_from (quote_answers sv ctx) 3 0 = Inl e"
      using run by (auto simp: generate_def generate_quote_tweet_def split: sum.splits prod.splits)
    then obtain i where "quote_answers sv ctx i = Raises e"
      using generate_quote_tweet_from_raises by blast
    then show ?thesis using un by (auto simp: uninterrupted_def)
  next
    case False
    then have "generate_reply_from (reply_answers sv ctx) 3 0 = Inl e"
      using run by (auto simp: generate_def generate_reply_def split: sum.splits prod.splits)
    then obtain i where "reply_answers sv ctx i = Raises e"
      using generate_reply_from_raises by blast
    then show ?thesis using un by (auto simp: uninterrupted_def)
  qed
qed

lemma publish_raises:
  "uninterrupted sv \<Longrightarrow> publish sv tw q msg th s = (Inl e, s1) \<Longrightarrow> e \<noteq> Base_exception"
proof -
  assume un: "uninterrupted sv" and run: "publish sv tw q msg th s = (Inl e, s1)"
  have "\<exists>j. create_tweet sv j = Create_raises e"
  proof (cases q)
    case True
    then obtain evs where
      "post_quote_tweet (create_tweet sv) (Id_int (tweet_id tw)) msg th 4 15 = (Inl e, evs)"
      using run by (auto simp: publish_def split: prod.splits sum.splits)
    then show ?thesis by (rule post_quote_tweet_raises)
  next
    case False
    then obtain evs where
      "post_reply_from (create_tweet sv) (Id_int (tweet_id tw)) msg 4 15 0 0 = (Inl e, evs)"
      using run by (auto simp: publish_def post_reply_def split: prod.splits sum.splits)
    then show ?thesis by (rule post_reply_from_raises)
  qed
  then show ?thesis using un by (auto simp: uninterrupted_def)
qed

lemma handle_selected_tweet_raises:
  "uninterrupted sv \<Longrightarrow> handle_selected_tweet sv selected s = (Inl e, s') \<Longrightarrow>
     e \<noteq> Base_exception"
proof (cases selected)
  case None
  assume "handle_selected_tweet sv selected s = (Inl e, s')"
  then show ?thesis using None by (simp add: handle_selected_tweet_def)
next
  case (Some tw)
  assume un: "uninterrupted sv" and "handle_selected_tweet sv selected s = (Inl e, s')"
  then have run: "handle_selected_tweet sv (Some tw) s = (Inl e, s')" using Some by simp
  let ?s1 = "logged [Called Identify_research_topic] s"
  let ?c0 = "\<lparr>ctx_tweet = tw, research_summary = None\<rparr>"
  show ?thesis
  proof (cases "identify_research_topic (topic_answer sv ?c0)")
    case (Inl e1)
    then have "e1 = e" using run by (simp add: handle_selected_tweet_def and_then_def)
    then have "topic_answer sv ?c0 = Raises e"
      using Inl identify_research_topic_raises by blast
    then show ?thesis using un by (auto simp: uninterrupted_def)
  next
    case topic: (Inr topic)
    obtain r2 s2 where res: "research sv topic ?s1 = (r2, s2)"
      by (cases "research sv topic ?s1") auto
    show ?thesis
    proof (cases r2)
      case (Inl e2)
      then have "e2 = e" using run topic res
        by (simp add: handle_selected_tweet_def and_then_def)
      then show ?thesis using research_raises[OF un] res Inl by blast
    next
      case summary: (Inr summary)
      let ?ctx = "\<lparr>ctx_tweet = tw, research_summary = Some (or_placeholder summary)\<rparr>"
      let ?s3 = "logged [Called Decide_quote_or_reply] s2"
      show ?thesis
      proof (cases "decide_quote_or_reply (decide_answer sv ?ctx)")
        case (Inl e3)
        then have "e3 = e" using run topic res summary
          by (simp add: handle_selected_tweet_def and_then_def Let_def)
        then have "decide_answer sv ?ctx = Raises e"
          using Inl decide_quote_or_reply_raises by blast
        then show ?thesis using un by (auto simp: uninterrupted_def)
      next
        case q: (Inr q)
        obtain r4 s4 where gen: "generate sv ?ctx q ?s3 = (r4, s4)"
          by (cases "generate sv ?ctx q ?s3") auto
        show ?thesis
        proof (cases r4)
          case (Inl e4)
          then have "e4 = e" using run topic res summary q gen
            by (simp add: handle_selected_tweet_def and_then_def Let_def)
          then show ?thesis using generate_raises[OF un] gen Inl by blast
        next
          case (Inr p)
          obtain rt th where p: "p = (rt, th)" by (cases p)
          have "\<exists>msg s5. publish sv tw q msg th s4 = (Inl e, s5)"
            using run topic res summary q gen Inr p
            by (auto simp: handle_selected_tweet_def and_then_def Let_def
                split: option.splits sum.splits prod.splits if_splits)
          then show ?thesis using publish_raises[OF un] by blast
        qed
      qed
    qed
  qed
qed

lemma cycle_body_raises:
  "uninterrupted sv \<Longrightarrow> cycle_body sv s = (Inl e, s') \<Longrightarrow> e \<noteq> Base_exception"
proof -
  assume un: "uninterrupted sv" and run: "cycle_body sv s = (Inl e, s')"
  let ?s0 = "logged [Fetch_tweets] s"
  show ?thesis
  proof (cases "fetched sv")
    case (Inl e1)
    then have "e1 = e" using run by (simp add: cycle_body_def and_then_def)
    then show ?thesis using un Inl by (auto simp: uninterrupted_def)
  next
    case ftw: (Inr ftw)
    show ?thesis
    proof (cases "ftw = []")
      case True
      then show ?thesis using run ftw by (simp add: cycle_body_def and_then_def)
    next
      case False
      obtain r1 s1 where pr: "process_fetched_tweets sv ftw ?s0 = (r1, s1)"
        by (cases "process_fetched_tweets sv ftw ?s0") auto
      show ?thesis
      proof (cases r1)
        case (Inl e1)
        then have "e1 = e" using run ftw False pr by (simp add: cycle_body_def and_then_def)
        then have "\<exists>tweets. select_answer sv tweets = Raises e"
          using pr Inl
          by (auto simp: process_fetched_tweets_def and_then_def Let_def
              split: if_splits sum.splits dest!: select_tweet_raises)
        then show ?thesis using un by (auto simp: uninterrupted_def)
      next
        case (Inr p)
        obtain selected u where p: "p = (selected, u)" by (cases p)
        obtain r2 s2 where h: "handle_selected_tweet sv selected s1 = (r2, s2)"
          by (cases "handle_selected_tweet sv selected s1") auto
        have "r2 = Inl e" using run ftw False pr Inr p h
          by (auto simp: cycle_body_def and_then_def split: sum.splits)
        then show ?thesis using handle_selected_tweet_raises[OF un] h by blast
      qed
    qed
  qed
qed

lemma iteration_goes_on:
  "uninterrupted sv \<Longrightarrow> 0 \<le> cycle_time rnd CL (uniform sv) \<Longrightarrow>
     \<exists>s'. iteration rnd CL sv s = (Inr (), s')"
proof -
  assume un: "uninterrupted sv" and t: "0 \<le> cycle_time rnd CL (uniform sv)"
  have awake: "\<not> interrupted_in_sleep sv" using un by (simp add: uninterrupted_def)
  have sleep: "\<exists>s'. sleep_step rnd CL sv s0 = (Inr (), s')" for s0
    using t awake by (simp add: sleep_step_def Let_def not_less[symmetric])
  obtain rb sb where body: "cycle_body sv s = (rb, sb)" by (cases "cycle_body sv s") auto
  show ?thesis
  proof (cases rb)
    case (Inl e)
    then have "is_Exception e" using cycle_body_raises[OF un] body by (auto simp: is_Exception_def)
    then show ?thesis using body Inl sleep by (simp add: iteration_def)
  next
    case (Inr f)
    then show ?thesis using body sleep by (cases f) (simp_all add: iteration_def)
  qed
qed

lemma main_cycle_goes_on:
  "\<forall>j. uninterrupted (world j) \<and> 0 \<le> cycle_time rnd CL (uniform (world j)) \<Longrightarrow>
     fst (main_cycle rnd CL world i n s) = Running"
proof (induction n arbitrary: i s)
  case 0
  then show ?case by simp
next
  case (Suc n)
  obtain s1 where "iteration rnd CL (world i) s = (Inr (), s1)"
    using iteration_goes_on[of "world i" rnd CL s] Suc.prems by blast
  then show ?case using Suc.IH[OF Suc.prems] by simp
qed











section \<open>The sleep duration\<close>

lemma py_int_bounds: "- 10 \<le> y \<Longrightarrow> y \<le> 10 \<Longrightarrow> - 10 \<le> py_int y \<and> py_int y \<le> 10"
  unfolding py_int_def by (auto simp: le_floor_iff floor_le_iff ceiling_le_iff le_ceiling_iff)

lemma py_int_bounds': "- 11 < y \<Longrightarrow> y < 11 \<Longrightarrow> - 10 \<le> py_int y \<and> py_int y \<le> 10"
  unfolding py_int_def by (auto simp: le_floor_iff floor_le_iff ceiling_le_iff le_ceiling_iff)

lemma cycle_time_float_endpoints:
  "mono rnd \<Longrightarrow> rnd (21 / 2) = 21 / 2 \<Longrightarrow> rnd (- 21 / 2) = - 21 / 2 \<Longrightarrow>
   \<bar>variance\<bar> \<le> 3602879701896397 / 36028797018963968 \<Longrightarrow>
     90 \<le> cycle_time rnd 100 variance \<and> cycle_time rnd 100 variance \<le> 110"
proof -
  assume m: "mono rnd" and hi: "rnd (21 / 2) = 21 / 2" and lo: "rnd (- 21 / 2) = - 21 / 2"
    and v: "\<bar>variance\<bar> \<le> 3602879701896397 / 36028797018963968"
  let ?x = "of_int 100 * variance"
  have "- 21 / 2 \<le> ?x" "?x \<le> 21 / 2" using v by linarith+
  then have "rnd (- 21 / 2) \<le> rnd ?x" "rnd ?x \<le> rnd (21 / 2)"
    using monoD[OF m, of "- 21 / 2" ?x] monoD[OF m, of ?x "21 / 2"] by blast+
  then have "- 21 / 2 \<le> rnd ?x" "rnd ?x \<le> 21 / 2" unfolding hi lo by blast+
  then have "- 11 < rnd ?x" "rnd ?x < 11" by linarith+
  then have "- 10 \<le> py_int (rnd ?x) \<and> py_int (rnd ?x) \<le> 10" by (rule py_int_bounds')
  then show ?thesis by (simp add: cycle_time_def)
qed

section \<open>Claim C1: generated texts respect the length bound\<close>

text \<open>
  C1. Whenever \<^verbatim>\<open>generate_reply\<close> returns something other than \<^verbatim>\<open>(None, None)\<close>, its reply
  text has at most 280 characters; whenever \<^verbatim>\<open>generate_quote_tweet\<close> returns something
  other than \<^verbatim>\<open>(None, None, [])\<close>, its main text and every element of its thread have at
  most 280 characters. This holds for every sequence of answers and every attempt budget.
\<close>

theorem generated_texts_fit_the_limit:
  "(generate_reply ask n = Inr (analysis, response_text)
      \<and> (analysis, response_text) \<noteq> (None, None)
    \<longrightarrow> (\<exists>t. response_text = Some t \<and> length t \<le> 280))
   \<and> (generate_quote_tweet ask' n' = Inr (analysis', response_text', thread)
      \<and> (analysis', response_text', thread) \<noteq> (None, None, [])
    \<longrightarrow> (\<exists>t. response_text' = Some t \<and> length t \<le> 280)
        \<and> (\<forall>seg \<in> set thread. length seg \<le> 280))"
proof -
  have reply: "\<exists>t. response_text = Some t \<and> length t \<le> 280"
    if a: "generate_reply ask n = Inr (analysis, response_text)
      \<and> (analysis, response_text) \<noteq> (None, None)"
  proof -
    obtain i x t where "reply_attempt (ask i) = Return (x, t)"
      and "(analysis, response_text) = (Some x, Some t)"
      using a generate_reply_from_result[of ask n 0 "(analysis, response_text)"]
      unfolding generate_reply_def by blast
    then show ?thesis using reply_attempt_Return by auto
  qed
  have quote: "(\<exists>t. response_text' = Some t \<and> length t \<le> 280)
        \<and> (\<forall>seg \<in> set thread. length seg \<le> 280)"
    if a: "generate_quote_tweet ask' n' = Inr (analysis', response_text', thread)
      \<and> (analysis', response_text', thread) \<noteq> (None, None, [])"
  proof -
    obtain i x t th where r: "quote_attempt (ask' i) = Return (x, t, th)"
      and e: "(analysis', response_text', thread) = (Some x, Some t, th)"
      using a generate_quote_tweet_from_result[of ask' n' 0 "(analysis', response_text', thread)"]
      unfolding generate_quote_tweet_def by blast
    have "length t \<le> 280 \<and> (\<forall>seg \<in> set th. length seg \<le> 280)"
      using quote_attempt_Return[OF r] by blast
    then show ?thesis using e by auto
  qed
  show ?thesis using reply quote by blast
qed

theorem generated_texts_fit_the_limit_witness:
  "generate_reply reply_answer_example 3 = Inr (Some (lit ''much think''), Some (lit ''such wow''))
   \<and> length (lit ''such wow'') \<le> 280
   \<and> generate_quote_tweet quote_answer_example 3 =
        Inr (Some (lit ''hm''), Some (lit ''bork''), [lit ''one'', lit ''two''])
   \<and> length (lit ''bork'') \<le> 280
   \<and> length (lit ''one'') \<le> 280 \<and> length (lit ''two'') \<le> 280"
  using generate_reply_example generate_quote_tweet_example
    generated_texts_fit_the_limit
      [of reply_answer_example 3 "Some (lit ''much think'')" "Some (lit ''such wow'')"
          quote_answer_example 3 "Some (lit ''hm'')" "Some (lit ''bork'')"
          "[lit ''one'', lit ''two'']"]
  by simp

section \<open>Claim C2: the quote post and its thread\<close>

text \<open>
  C2, for the platforms on which every \<^verbatim>\<open>create_tweet\<close> call either returns a truthy
  identifier or raises one of the errors the publisher retries (\<^verbatim>\<open>ConnectionError\<close>,
  \<^verbatim>\<open>tweepy.TweepyException\<close>). If every attempt of the main post fails with a retried
  error, \<^verbatim>\<open>post_quote_tweet\<close> returns \<^verbatim>\<open>None\<close> and the only calls made are the
  \<open>max_retries\<close> attempts of the main post. If the main post succeeds, then the posting of
  the main text and of every element of the thread is started, in order, whatever happens
  to earlier elements; every call quotes the target while nothing has been posted and
  afterwards replies to the latest successful post; and the returned main post followed
  by the returned thread posts are the successful posts, in order.
\<close>

theorem post_quote_tweet_chain:
  "((\<forall>j < max_retries. create j = Create_raises Connection_or_Tweepy) \<longrightarrow>
      (\<exists>evs. post_quote_tweet create q primary thread max_retries delay = (Inr None, evs)
         \<and> filter is_create evs =
             map (\<lambda>j. Create_tweet primary (Quote_tweet_id q) j
                        (Create_raises Connection_or_Tweepy)) [0..<max_retries]))
   \<and> (retry_eligible create' \<and> (\<exists>j < max_retries'. \<exists>tid. create' j = Created tid) \<longrightarrow>
      (\<exists>main_tweet thread_tweets evs.
         post_quote_tweet create' q' primary' thread' max_retries' delay'
           = (Inr (Some (main_tweet, thread_tweets)), evs)
         \<and> List.map_filter started evs = primary' # thread'
         \<and> replies_to_latest q' None evs
         \<and> List.map_filter posted_of evs = main_tweet # thread_tweets))"
proof -
  have fails: "\<exists>evs. post_quote_tweet create q primary thread max_retries delay = (Inr None, evs)
         \<and> filter is_create evs =
             map (\<lambda>j. Create_tweet primary (Quote_tweet_id q) j
                        (Create_raises Connection_or_Tweepy)) [0..<max_retries]"
    if all: "\<forall>j < max_retries. create j = Create_raises Connection_or_Tweepy"
  proof -
    obtain r k evs where unit:
      "post_tweet_with_retry create q max_retries delay primary None 0 0 = (r, k, evs)"
      by (cases "post_tweet_with_retry create q max_retries delay primary None 0 0") auto
    have "r = Inr None \<and> filter is_create evs =
         map (\<lambda>j. Create_tweet primary (create_target q None) j
                (Create_raises Connection_or_Tweepy)) [0..<max_retries]"
      using post_tweet_with_retry_exhausted[OF _ unit] all by simp
    then show ?thesis using unit by (simp add: post_quote_tweet_def create_target_def)
  qed
  have succeeds: "\<exists>main_tweet thread_tweets evs.
         post_quote_tweet create' q' primary' thread' max_retries' delay'
           = (Inr (Some (main_tweet, thread_tweets)), evs)
         \<and> List.map_filter started evs = primary' # thread'
         \<and> replies_to_latest q' None evs
         \<and> List.map_filter posted_of evs = main_tweet # thread_tweets"
    if el: "retry_eligible create'" and ok: "\<exists>j < max_retries'. \<exists>tid. create' j = Created tid"
  proof -
    have R: "0 < max_retries'" using ok by auto
    have "\<exists>j tid. 0 \<le> j \<and> j < 0 + (max_retries' - 0) \<and> create' j = Created tid"
      using ok by auto
    then obtain p k evs where unit:
      "post_tweet_with_retry create' q' max_retries' delay' primary' None 0 0
         = (Inr (Some p), k, evs)"
      using post_tweet_with_retry_succeeds[OF el] by blast
    from post_tweet_with_retry_spec[OF el _ unit]
    have posted1: "List.map_filter posted_of evs = [p]"
      and anchor1: "anchor_after None evs = posted_id p"
      and truthy1: "truthy_id (posted_id p)"
      and started1: "List.map_filter started evs = [primary']"
      and chain1: "replies_to_latest q' None evs"
      using R by auto
    obtain r2 k2 evs2 where rest:
      "post_thread create' q' max_retries' delay' (posted_id p) [] k thread' = (r2, k2, evs2)"
      by (cases "post_thread create' q' max_retries' delay' (posted_id p) [] k thread'") auto
    from post_thread_spec[OF el R _ rest] truthy1
    have r2: "r2 = Inr (List.map_filter posted_of evs2)"
      and started2: "List.map_filter started evs2 = thread'"
      and chain2: "replies_to_latest q' (posted_id p) evs2"
      by auto
    show ?thesis
    proof (cases "thread' = []")
      case True
      then have "post_quote_tweet create' q' primary' thread' max_retries' delay'
                   = (Inr (Some (p, [])), evs)"
        using unit by (simp add: post_quote_tweet_def)
      then show ?thesis using posted1 started1 chain1 True by simp
    next
      case False
      then have "post_quote_tweet create' q' primary' thread' max_retries' delay'
                   = (Inr (Some (p, List.map_filter posted_of evs2)), evs @ evs2)"
        using unit rest r2 by (simp add: post_quote_tweet_def)
      then show ?thesis using posted1 started1 chain1 started2 chain2 anchor1
        by (simp add: map_filter_append replies_to_latest_append)
    qed
  qed
  show ?thesis using fails succeeds by blast
qed

theorem post_quote_tweet_chain_witness:
  "create_unreachable 0 = Create_raises Connection_or_Tweepy
   \<and> create_unreachable 1 = Create_raises Connection_or_Tweepy
   \<and> create_unreachable 2 = Create_raises Connection_or_Tweepy
   \<and> create_unreachable 3 = Create_raises Connection_or_Tweepy
   \<and> fst (post_quote_tweet create_unreachable (Id_int 7) (lit ''p'') [lit ''a'', lit ''b''] 4 15)
       = Inr None
   \<and> filter is_create
       (snd (post_quote_tweet create_unreachable (Id_int 7) (lit ''p'') [lit ''a'', lit ''b''] 4 15))
       = map (\<lambda>j. Create_tweet (lit ''p'') (Quote_tweet_id (Id_int 7)) j
                    (Create_raises Connection_or_Tweepy)) [0..<4]
   \<and> retry_eligible create_example
   \<and> create_example 3 = Created (Some (Id_str (lit ''100'')))
   \<and> fst (post_quote_tweet create_example (Id_int 7) (lit ''p'') [lit ''a'', lit ''b''] 4 15)
       = Inr (Some (\<lparr>posted_id = Some (Id_str (lit ''100'')), posted_text = lit ''p''\<rparr>,
                 [\<lparr>posted_id = Some (Id_str (lit ''200'')), posted_text = lit ''b''\<rparr>]))
   \<and> List.map_filter started
       (snd (post_quote_tweet create_example (Id_int 7) (lit ''p'') [lit ''a'', lit ''b''] 4 15))
       = [lit ''p'', lit ''a'', lit ''b'']
   \<and> replies_to_latest (Id_int 7) None
       (snd (post_quote_tweet create_example (Id_int 7) (lit ''p'') [lit ''a'', lit ''b''] 4 15))"
proof -
  have 1: "\<forall>j < 4. create_unreachable j = Create_raises Connection_or_Tweepy"
    by (simp add: create_unreachable_def)
  have 2: "create_example 3 = Created (Some (Id_str (lit ''100'')))"
    by (simp add: create_example_def)
  then have 3: "\<exists>j < 4. \<exists>tid. create_example j = Created tid"
    by (intro exI[of _ 3]) simp
  note inst = post_quote_tweet_chain
    [of 4 create_unreachable "Id_int 7" "lit ''p''" "[lit ''a'', lit ''b'']" 15
        create_example 4 "Id_int 7" "lit ''p''" "[lit ''a'', lit ''b'']" 15]
  have a: "\<exists>evs. post_quote_tweet create_unreachable (Id_int 7) (lit ''p'') [lit ''a'', lit ''b''] 4 15
             = (Inr None, evs)
         \<and> filter is_create evs =
             map (\<lambda>j. Create_tweet (lit ''p'') (Quote_tweet_id (Id_int 7)) j
                        (Create_raises Connection_or_Tweepy)) [0..<4]"
    using inst 1 by blast
  have b: "\<exists>main_tweet thread_tweets evs.
         post_quote_tweet create_example (Id_int 7) (lit ''p'') [lit ''a'', lit ''b''] 4 15
           = (Inr (Some (main_tweet, thread_tweets)), evs)
         \<and> List.map_filter started evs = lit ''p'' # [lit ''a'', lit ''b'']
         \<and> replies_to_latest (Id_int 7) None evs
         \<and> List.map_filter posted_of evs = main_tweet # thread_tweets"
    using inst retry_eligible_example 3 by blast
  show ?thesis
    using a b 2 retry_eligible_example post_quote_tweet_example
    by (auto simp: create_unreachable_def)
qed

text \<open>
  Without that restriction the second half fails. On a platform whose first call succeeds
  and whose second call raises an exception of another kind, the main post succeeds, the
  exception leaves \<^verbatim>\<open>post_quote_tweet\<close> and the posting of the second element of the
  thread is never started. On a platform that answers with the empty string as
  identifier, \<^verbatim>\<open>if in_reply_to:\<close> is false for the main post's identifier, and the element
  of the thread is sent as a quote of the target, not as a reply to the main post.
\<close>

theorem post_quote_tweet_chain_counterexample:
  "create_fatal 0 = Created (Some (Id_str (lit ''100'')))
   \<and> fst (post_quote_tweet create_fatal (Id_int 7) (lit ''p'') [lit ''a'', lit ''b''] 4 15)
       = Inl Other_exception
   \<and> List.map_filter started
       (snd (post_quote_tweet create_fatal (Id_int 7) (lit ''p'') [lit ''a'', lit ''b''] 4 15))
       = [lit ''p'', lit ''a'']
   \<and> create_blank_id 0 = Created (Some (Id_str []))
   \<and> post_quote_tweet create_blank_id (Id_int 7) (lit ''p'') [lit ''a''] 4 15
       = (Inr (Some (\<lparr>posted_id = Some (Id_str []), posted_text = lit ''p''\<rparr>,
                     [\<lparr>posted_id = Some (Id_str []), posted_text = lit ''a''\<rparr>])),
          [Create_tweet (lit ''p'') (Quote_tweet_id (Id_int 7)) 0 (Created (Some (Id_str []))),
           Create_tweet (lit ''a'') (Quote_tweet_id (Id_int 7)) 0 (Created (Some (Id_str [])))])
   \<and> \<not> replies_to_latest (Id_int 7) None
         (snd (post_quote_tweet create_blank_id (Id_int 7) (lit ''p'') [lit ''a''] 4 15))"
  by (simp add: post_quote_tweet_fatal_example post_quote_tweet_blank_id_example
        create_fatal_def create_blank_id_def List.map_filter_def)
section \<open>Claim C3: the sleep between two fetches\<close>

text \<open>
  C3. The scheduler is to sleep between any two fetches. When the feed client returns an
  empty list, the \<^verbatim>\<open>continue\<close> statement starts the next iteration without reaching the
  sleep: three iterations with an empty feed are three fetches and no sleep. (By
  \<open>iteration_sleeps_unless_fetch_empty\<close> above, every other iteration that goes on ends
  with the sleep.)
\<close>

theorem empty_fetch_is_followed_by_no_sleep:
  "main_cycle (\<lambda>x. x) 100 (\<lambda>j. services_idle) 0 3 state_example
     = (Running, \<lparr>processed_tweet_ids = {7}, log = [Fetch_tweets, Fetch_tweets, Fetch_tweets]\<rparr>)"
proof -
  have f: "fetched services_idle = Inr []" by (simp add: services_idle_def)
  show ?thesis
    by (simp add: numeral_3_eq_3 empty_fetch_continues[OF f] logged_def state_example_def)
qed

section \<open>Claim C4: exhausted generation\<close>



section \<open>Claim C5: when the set of processed identifiers changes\<close>



section \<open>Claim C6: exceptions at the loop boundary\<close>

text \<open>
  C6. Provided the sleep duration is never negative: an exception of a kind
  \<^verbatim>\<open>except Exception\<close> catches that leaves the \<^verbatim>\<open>try\<close> block is logged, leaves
  \<^verbatim>\<open>processed_tweet_ids\<close> as it was, and the loop sleeps and goes on with the next
  iteration; whenever \<^verbatim>\<open>main_cycle\<close> stops, it does so with an exception outside
  \<^verbatim>\<open>Exception\<close>, that is by an interruption; and as long as no interruption arrives the
  loop is still running after any number of iterations.
\<close>

theorem cycle_exceptions_are_caught:
  "\<forall>j. 0 \<le> cycle_time rnd CL (uniform (world j)) \<Longrightarrow>
     (cycle_body (world i) s = (Inl e, s1) \<and> is_Exception e
        \<and> \<not> interrupted_in_sleep (world i) \<longrightarrow>
          processed_tweet_ids s1 = processed_tweet_ids s
        \<and> iteration rnd CL (world i) s =
            (Inr (), logged [Cycle_error e, Sleep (cycle_time rnd CL (uniform (world i)))] s1)
        \<and> main_cycle rnd CL world i (Suc n) s =
            main_cycle rnd CL world (Suc i) n
              (logged [Cycle_error e, Sleep (cycle_time rnd CL (uniform (world i)))] s1))
     \<and> (fst (main_cycle rnd CL world i' n' s') = Stopped e' \<longrightarrow> e' = Base_exception)
     \<and> ((\<forall>j. uninterrupted (world j)) \<longrightarrow> fst (main_cycle rnd CL world i' n' s') = Running)"
proof -
  assume sleeps: "\<forall>j. 0 \<le> cycle_time rnd CL (uniform (world j))"
  have caught: "processed_tweet_ids s1 = processed_tweet_ids s
        \<and> iteration rnd CL (world i) s =
            (Inr (), logged [Cycle_error e, Sleep (cycle_time rnd CL (uniform (world i)))] s1)
        \<and> main_cycle rnd CL world i (Suc n) s =
            main_cycle rnd CL world (Suc i) n
              (logged [Cycle_error e, Sleep (cycle_time rnd CL (uniform (world i)))] s1)"
    if body: "cycle_body (world i) s = (Inl e, s1)" and e: "is_Exception e"
      and awake: "\<not> interrupted_in_sleep (world i)"
  proof -
    have ids: "processed_tweet_ids s1 = processed_tweet_ids s"
      using cycle_body_cases[OF body] by auto
    have "\<not> cycle_time rnd CL (uniform (world i)) < 0" using sleeps by (simp add: not_less)
    then have it: "iteration rnd CL (world i) s =
            (Inr (), logged [Cycle_error e, Sleep (cycle_time rnd CL (uniform (world i)))] s1)"
      using body e awake by (simp add: iteration_def sleep_step_def Let_def logged_logged)
    then show ?thesis using ids by simp
  qed
  have stops: "e' = Base_exception" if "fst (main_cycle rnd CL world i' n' s') = Stopped e'"
    using main_cycle_stops[OF sleeps that] .
  have goes_on: "fst (main_cycle rnd CL world i' n' s') = Running"
    if "\<forall>j. uninterrupted (world j)"
    using main_cycle_goes_on[of world rnd CL i' n' s'] that sleeps by blast
  show ?thesis using caught stops goes_on by blast
qed

theorem cycle_exceptions_are_caught_witness:
  "cycle_time (\<lambda>x. x) 100 (uniform services_down) = 93
   \<and> cycle_body services_down state_example
        = (Inl Other_exception, logged [Fetch_tweets] state_example)
   \<and> is_Exception Other_exception
   \<and> \<not> interrupted_in_sleep services_down
   \<and> iteration (\<lambda>x. x) 100 services_down state_example
        = (Inr (), logged [Cycle_error Other_exception, Sleep 93]
                     (logged [Fetch_tweets] state_example))
   \<and> main_cycle (\<lambda>x. x) 100 (\<lambda>j. services_down) 0 (Suc 0) state_example
        = (Running, logged [Cycle_error Other_exception, Sleep 93]
                     (logged [Fetch_tweets] state_example))
   \<and> uninterrupted services_down
   \<and> fst (main_cycle (\<lambda>x. x) 100 (\<lambda>j. services_down) 0 5 state_example) = Running"
proof -
  have sleeps: "\<forall>j. 0 \<le> cycle_time (\<lambda>x. x) 100 (uniform ((\<lambda>j. services_down) j))"
    by (simp add: cycle_time_example)
  have e: "is_Exception Other_exception" by (simp add: is_Exception_def)
  have awake: "\<not> interrupted_in_sleep services_down"
    by (simp add: services_down_def services_example_def)
  have un: "uninterrupted services_down"
    by (simp add: uninterrupted_def services_down_def services_example_def
          reply_answer_example_def quote_answer_example_def create_example_def)
  show ?thesis
    using cycle_exceptions_are_caught
      [where rnd = "\<lambda>x. x" and CL = 100 and world = "\<lambda>j. services_down" and i = 0
         and s = state_example and e = Other_exception
         and ?s1.0 = "logged [Fetch_tweets] state_example" and n = 0
         and i' = 0 and n' = 5 and s' = state_example, OF sleeps]
      cycle_body_down e awake cycle_time_example un
    by simp
qed

section \<open>Claim C7: no selection\<close>

text \<open>
  C7. For a non-empty batch of unprocessed candidates: if the selection request raises an
  exception or its answer cannot be parsed, or the answer is \<^verbatim>\<open>none\<close> in any letter case,
  or the answer equals \<^verbatim>\<open>str(tweet["tweet_id"])\<close> for no candidate of the batch, then
  \<^verbatim>\<open>process_fetched_tweets\<close> returns no selected candidate and the iteration goes from the
  selection call straight to the sleep. Otherwise the candidate returned is the first one
  whose identifier, converted to a string, equals the answer.
\<close>

theorem no_selection_skips_to_sleep:
  "fetched sv = Inr ftw \<Longrightarrow>
   filter (\<lambda>tw. tweet_id tw \<notin> processed_tweet_ids s) ftw = unprocessed \<Longrightarrow>
   unprocessed \<noteq> [] \<Longrightarrow>
     ((\<exists>e. select_answer sv unprocessed = Raises e \<and> is_Exception e)
       \<or> (\<exists>c. select_answer sv unprocessed = Content c \<and> parse_response (py_strip c) = None)
       \<or> (\<exists>c a. select_answer sv unprocessed = Content c
             \<and> parse_response (py_strip c) = Some a
             \<and> (py_lower a = lit ''none''
                 \<or> (\<forall>tw \<in> set unprocessed. py_str (tweet_id tw) \<noteq> a)))
      \<longrightarrow> (\<exists>u. process_fetched_tweets sv ftw s
                 = (Inr (None, u), logged [Called Select_tweet] s))
          \<and> iteration rnd CL sv s
              = sleep_step rnd CL sv (logged [Fetch_tweets, Called Select_tweet] s))
     \<and> (select_answer sv unprocessed = Content c' \<and> parse_response (py_strip c') = Some a'
          \<and> a' \<noteq> [] \<and> py_lower a' \<noteq> lit ''none''
        \<longrightarrow> fst (process_fetched_tweets sv ftw s)
              = Inr (find (\<lambda>tw. py_str (tweet_id tw) = a') unprocessed, Some unprocessed))"
proof -
  assume f: "fetched sv = Inr ftw"
    and un: "filter (\<lambda>tw. tweet_id tw \<notin> processed_tweet_ids s) ftw = unprocessed"
    and ne: "unprocessed \<noteq> []"
  have ftw: "ftw \<noteq> []" using un ne by auto
  have skip: "(\<exists>u. process_fetched_tweets sv ftw s
                 = (Inr (None, u), logged [Called Select_tweet] s))
          \<and> iteration rnd CL sv s
              = sleep_step rnd CL sv (logged [Fetch_tweets, Called Select_tweet] s)"
    if no: "(\<exists>e. select_answer sv unprocessed = Raises e \<and> is_Exception e)
       \<or> (\<exists>c. select_answer sv unprocessed = Content c \<and> parse_response (py_strip c) = None)
       \<or> (\<exists>c a. select_answer sv unprocessed = Content c
             \<and> parse_response (py_strip c) = Some a
             \<and> (py_lower a = lit ''none''
                 \<or> (\<forall>tw \<in> set unprocessed. py_str (tweet_id tw) \<noteq> a)))"
  proof -
    have 1: "\<exists>u. process_fetched_tweets sv ftw s
                 = (Inr (None, u), logged [Called Select_tweet] s)"
      using process_fetched_tweets_no_selection[OF un ne no] .
    have un0: "filter (\<lambda>tw. tweet_id tw \<notin> processed_tweet_ids (logged [Fetch_tweets] s)) ftw
                 = unprocessed"
      using un by (simp add: ids_logged)
    obtain u where "process_fetched_tweets sv ftw (logged [Fetch_tweets] s)
                 = (Inr (None, u), logged [Called Select_tweet] (logged [Fetch_tweets] s))"
      using process_fetched_tweets_no_selection[OF un0 ne no] by blast
    then have "cycle_body sv s
                 = (Inr Fall_through, logged [Fetch_tweets, Called Select_tweet] s)"
      using f ftw
      by (simp add: cycle_body_def and_then_def handle_selected_tweet_def logged_logged)
    then have "iteration rnd CL sv s
              = sleep_step rnd CL sv (logged [Fetch_tweets, Called Select_tweet] s)"
      by (simp add: iteration_def)
    then show ?thesis using 1 by blast
  qed
  have pick: "fst (process_fetched_tweets sv ftw s)
              = Inr (find (\<lambda>tw. py_str (tweet_id tw) = a') unprocessed, Some unprocessed)"
    if "select_answer sv unprocessed = Content c' \<and> parse_response (py_strip c') = Some a'
          \<and> a' \<noteq> [] \<and> py_lower a' \<noteq> lit ''none''"
    using that un ne
    by (simp add: process_fetched_tweets_def and_then_def select_tweet_def truthy_def)
  show ?thesis using skip pick by blast
qed

theorem no_selection_skips_to_sleep_witness:
  "fetched services_undecided = Inr [tweet_example]
   \<and> filter (\<lambda>tw. tweet_id tw \<notin> processed_tweet_ids state_example) [tweet_example]
        = [tweet_example]
   \<and> parse_response (py_strip (lit ''### Analysis ###'' @ [10] @ lit ''meh'' @ [10]
                    @ lit ''### Response ###'' @ [10] @ lit ''99'')) = Some (lit ''99'')
   \<and> py_str (tweet_id tweet_example) \<noteq> lit ''99''
   \<and> iteration (\<lambda>x. x) 100 services_undecided state_example
        = (Inr (), logged [Fetch_tweets, Called Select_tweet, Sleep 93] state_example)
   \<and> fst (process_fetched_tweets services_example [tweet_example] state_example)
        = Inr (Some tweet_example, Some [tweet_example])"
proof -
  let ?c = "lit ''### Analysis ###'' @ [10] @ lit ''meh'' @ [10]
                    @ lit ''### Response ###'' @ [10] @ lit ''99''"
  let ?c' = "lit ''### Analysis ###'' @ [10] @ lit ''best'' @ [10]
                         @ lit ''### Response ###'' @ [10] @ lit ''42''"
  have f: "fetched services_undecided = Inr [tweet_example]"
    and f': "fetched services_example = Inr [tweet_example]"
    by (simp_all add: services_undecided_def services_example_def)
  have un: "filter (\<lambda>tw. tweet_id tw \<notin> processed_tweet_ids state_example) [tweet_example]
              = [tweet_example]"
    by (simp add: state_example_def tweet_example_def)
  have ne: "[tweet_example] \<noteq> []" by simp
  have ans: "select_answer services_undecided [tweet_example] = Content ?c"
    and ans': "select_answer services_example [tweet_example] = Content ?c'"
    by (simp_all add: services_undecided_def services_example_def)
  have parse: "parse_response (py_strip ?c) = Some (lit ''99'')"
    by (simp add: parse_response_def ANALYSIS_def RESPONSE_def lit_def py_split_def
          py_strip_def py_isspace_def item_def)
  have parse': "parse_response (py_strip ?c') = Some (lit ''42'')"
    by (simp add: parse_response_def ANALYSIS_def RESPONSE_def lit_def py_split_def
          py_strip_def py_isspace_def item_def)
  have id: "tweet_id tweet_example = 42" by (simp add: tweet_example_def)
  have differ: "py_str (tweet_id tweet_example) \<noteq> lit ''99''"
    by (simp add: id py_str_42 lit_def)
  have no: "\<exists>c a. select_answer services_undecided [tweet_example] = Content c
             \<and> parse_response (py_strip c) = Some a
             \<and> (py_lower a = lit ''none''
                 \<or> (\<forall>tw \<in> set [tweet_example]. py_str (tweet_id tw) \<noteq> a))"
    using ans parse differ by auto
  have pick: "lit ''42'' \<noteq> [] \<and> py_lower (lit ''42'') \<noteq> lit ''none''"
    by (simp add: lit_def py_lower_def lower_char_def)
  have sleep: "sleep_step (\<lambda>x. x) 100 services_undecided
                  (logged [Fetch_tweets, Called Select_tweet] state_example)
               = (Inr (), logged [Fetch_tweets, Called Select_tweet, Sleep 93] state_example)"
    by (simp add: sleep_step_def cycle_time_def py_int_def services_undecided_def
          services_example_def logged_logged)
  have a: "iteration (\<lambda>x. x) 100 services_undecided state_example
        = (Inr (), logged [Fetch_tweets, Called Select_tweet, Sleep 93] state_example)"
    using no_selection_skips_to_sleep[OF f un ne, of "\<lambda>x. x" 100] no sleep by simp
  have b: "fst (process_fetched_tweets services_example [tweet_example] state_example)
        = Inr (Some tweet_example, Some [tweet_example])"
    using no_selection_skips_to_sleep[OF f' un ne, of "\<lambda>x. x" 100 ?c' "lit ''42''"]
      ans' parse' pick
    by (simp add: id py_str_42)
  show ?thesis using f un parse differ a b by simp
qed

section \<open>Claim C8: the decision between quote and reply\<close>

text \<open>
  C8. \<^verbatim>\<open>decide_quote_or_reply\<close> returns \<^verbatim>\<open>False\<close> (reply) whenever the request raises
  an exception, the answer does not contain the marker \<^verbatim>\<open>### Decision ###\<close>, or the
  decision token (the stripped text after the marker), lowered, differs from
  \<^verbatim>\<open>quote tweet\<close>; the answer \<^verbatim>\<open>### Decision ###\<close>, newline, \<^verbatim>\<open>Reply\<close> gives \<^verbatim>\<open>False\<close>; and
  \<^verbatim>\<open>True\<close> is returned only for an answer whose lowered token equals \<^verbatim>\<open>quote tweet\<close>.
\<close>

theorem decide_quote_or_reply_defaults_to_reply:
  "(is_Exception e \<longrightarrow> decide_quote_or_reply (Raises e) = Inr False)
   \<and> (\<not> occurs_in DECISION c \<longrightarrow> decide_quote_or_reply (Content c) = Inr False)
   \<and> (item (py_split DECISION (py_strip c')) 1 = Some d
          \<and> py_lower (py_strip d) \<noteq> lit ''quote tweet''
        \<longrightarrow> decide_quote_or_reply (Content c') = Inr False)
   \<and> decide_quote_or_reply (Content (lit ''### Decision ###'' @ [10] @ lit ''Reply'')) = Inr False
   \<and> (decide_quote_or_reply r = Inr True \<longrightarrow>
        (\<exists>a t. r = Content a \<and> item (py_split DECISION (py_strip a)) 1 = Some t
           \<and> py_lower (py_strip t) = lit ''quote tweet''))"
proof (intro conjI impI)
  assume "is_Exception e"
  then show "decide_quote_or_reply (Raises e) = Inr False"
    by (simp add: decide_quote_or_reply_def)
next
  assume "\<not> occurs_in DECISION c"
  then show "decide_quote_or_reply (Content c) = Inr False"
    using item_absent[of DECISION c] by (simp add: decide_quote_or_reply_def)
next
  assume "item (py_split DECISION (py_strip c')) 1 = Some d
          \<and> py_lower (py_strip d) \<noteq> lit ''quote tweet''"
  then show "decide_quote_or_reply (Content c') = Inr False"
    by (simp add: decide_quote_or_reply_def)
next
  show "decide_quote_or_reply (Content (lit ''### Decision ###'' @ [10] @ lit ''Reply''))
          = Inr False"
    by (simp add: decide_quote_or_reply_def lit_def py_split_def DECISION_def py_strip_def
          py_isspace_def item_def py_lower_def lower_char_def)
next
  assume "decide_quote_or_reply r = Inr True"
  then show "\<exists>a t. r = Content a \<and> item (py_split DECISION (py_strip a)) 1 = Some t
           \<and> py_lower (py_strip t) = lit ''quote tweet''"
    by (cases r) (auto simp: decide_quote_or_reply_def split: option.splits if_splits)
qed

theorem decide_quote_or_reply_defaults_to_reply_witness:
  "is_Exception Other_exception
   \<and> decide_quote_or_reply (Raises Other_exception) = Inr False
   \<and> \<not> occurs_in DECISION (lit ''Reply'')
   \<and> decide_quote_or_reply (Content (lit ''Reply'')) = Inr False
   \<and> item (py_split DECISION (py_strip (lit ''### Decision ### quote'')))  1
        = Some (lit '' quote'')
   \<and> py_lower (py_strip (lit '' quote'')) \<noteq> lit ''quote tweet''
   \<and> decide_quote_or_reply (Content (lit ''### Decision ### quote'')) = Inr False
   \<and> decide_quote_or_reply (Content (lit ''### Decision ###'' @ [10] @ lit ''QUOTE Tweet ''))
        = Inr True
   \<and> (\<exists>a t. Content (lit ''### Decision ###'' @ [10] @ lit ''QUOTE Tweet '') = Content a
          \<and> item (py_split DECISION (py_strip a)) 1 = Some t
          \<and> py_lower (py_strip t) = lit ''quote tweet'')"
proof -
  have 1: "is_Exception Other_exception"
    by (simp add: is_Exception_def)
  have 2: "\<not> occurs_in DECISION (lit ''Reply'')"
    by (simp add: DECISION_def lit_def)
  have 3: "item (py_split DECISION (py_strip (lit ''### Decision ### quote''))) 1
             = Some (lit '' quote'')"
    by (simp add: lit_def py_split_def DECISION_def py_strip_def py_isspace_def item_def)
  have 4: "py_lower (py_strip (lit '' quote'')) \<noteq> lit ''quote tweet''"
    by (simp add: lit_def py_strip_def py_isspace_def py_lower_def lower_char_def)
  have 5: "decide_quote_or_reply (Content (lit ''### Decision ###'' @ [10] @ lit ''QUOTE Tweet ''))
             = Inr True"
    by (simp add: decide_quote_or_reply_def lit_def py_split_def DECISION_def py_strip_def
          py_isspace_def item_def py_lower_def lower_char_def)
  show ?thesis
    using 1 2 3 4 5
      decide_quote_or_reply_defaults_to_reply
        [of Other_exception "lit ''Reply''" "lit ''### Decision ### quote''" "lit '' quote''"
            "Content (lit ''### Decision ###'' @ [10] @ lit ''QUOTE Tweet '')"]
    by blast
qed
section \<open>Claim C9: the jittered sleep duration\<close>

text \<open>
  C9. For \<^verbatim>\<open>CYCLE_LENGTH = 100\<close> and every variance between \<open>-0.10\<close> and \<open>0.10\<close>, the
  duration \<^verbatim>\<open>CYCLE_LENGTH + int(CYCLE_LENGTH * variance)\<close> lies between 90 and 110. The
  rounding of the float product is any monotone function that leaves 10 and -10 as they
  are (both are representable); the identity gives the statement over the reals.
  \<open>cycle_time_float_endpoints\<close> above covers the two floats nearest to \<open>-0.10\<close> and
  \<open>0.10\<close>, which lie just outside the real interval.
\<close>

theorem cycle_time_within_ten_percent:
  "mono rnd \<Longrightarrow> rnd 10 = 10 \<Longrightarrow> rnd (- 10) = - 10 \<Longrightarrow>
   - 1 / 10 \<le> variance \<Longrightarrow> variance \<le> 1 / 10 \<Longrightarrow>
     90 \<le> cycle_time rnd 100 variance \<and> cycle_time rnd 100 variance \<le> 110"
proof -
  assume m: "mono rnd" and hi: "rnd 10 = 10" and lo: "rnd (- 10) = - 10"
    and v1: "- 1 / 10 \<le> variance" and v2: "variance \<le> 1 / 10"
  let ?x = "of_int 100 * variance"
  have "- 10 \<le> ?x" "?x \<le> 10" using v1 v2 by linarith+
  then have "rnd (- 10) \<le> rnd ?x" "rnd ?x \<le> rnd 10"
    using monoD[OF m, of "- 10" ?x] monoD[OF m, of ?x 10] by blast+
  then have "- 10 \<le> rnd ?x" "rnd ?x \<le> 10" unfolding hi lo by blast+
  then have "- 10 \<le> py_int (rnd ?x) \<and> py_int (rnd ?x) \<le> 10" by (rule py_int_bounds)
  then show ?thesis by (simp add: cycle_time_def)
qed

theorem cycle_time_within_ten_percent_witness:
  "mono (\<lambda>x::real. x) \<and> - 1 / 10 \<le> (- 7 / 100 :: real) \<and> (- 7 / 100 :: real) \<le> 1 / 10
   \<and> cycle_time (\<lambda>x. x) 100 (- 7 / 100) = 93
   \<and> 90 \<le> cycle_time (\<lambda>x. x) 100 (- 7 / 100) \<and> cycle_time (\<lambda>x. x) 100 (- 7 / 100) \<le> 110"
proof -
  have m: "mono (\<lambda>x::real. x)" by (simp add: mono_def)
  have e: "cycle_time (\<lambda>x. x) 100 (- 7 / 100) = 93" by (simp add: cycle_time_def py_int_def)
  show ?thesis
    using m e cycle_time_within_ten_percent[of "\<lambda>x. x" "- 7 / 100"] by simp
qed
section \<open>Claim C10: no blank thread segment\<close>

text \<open>
  C10. The thread \<^verbatim>\<open>generate_quote_tweet\<close> returns has no empty and no whitespace-only
  element. The failure result carries the empty thread; an accepted answer has the marker
  \<^verbatim>\<open>### Thread ###\<close>, its thread is made of the stripped non-blank lines after the marker,
  and it is empty when nothing but whitespace follows the marker. (An answer without the
  marker is never accepted: \<open>quote_attempt_without_thread_marker\<close> above.)
\<close>

theorem thread_has_no_blank_segment:
  "generate_quote_tweet ask n = Inr (analysis, response_text, thread) \<Longrightarrow>
     (\<forall>seg \<in> set thread. seg \<noteq> [] \<and> (\<exists>ch \<in> set seg. \<not> py_isspace ch))
     \<and> (response_text = None \<longrightarrow> thread = [])
     \<and> (response_text \<noteq> None \<longrightarrow>
          (\<exists>i < n. \<exists>c sec. ask i = Content c
             \<and> item (py_split THREAD (py_strip c)) 1 = Some sec
             \<and> thread = thread_list_of (py_strip sec)
             \<and> ((\<forall>ch \<in> set sec. py_isspace ch) \<longrightarrow> thread = [])))"
proof -
  assume a: "generate_quote_tweet ask n = Inr (analysis, response_text, thread)"
  then consider (sentinel) "(analysis, response_text, thread) = (None, None, [])"
    | (accepted) i x t th where "i < n" "quote_attempt (ask i) = Return (x, t, th)"
        "(analysis, response_text, thread) = (Some x, Some t, th)"
    using generate_quote_tweet_from_result[of ask n 0 "(analysis, response_text, thread)"]
    unfolding generate_quote_tweet_def by blast
  then show ?thesis
  proof cases
    case sentinel
    then show ?thesis by simp
  next
    case accepted
    obtain c sec where c: "ask i = Content c"
      and sec: "item (py_split THREAD (py_strip c)) 1 = Some sec"
      and th: "th = thread_list_of (py_strip sec)"
      using quote_attempt_Return[OF accepted(2)] by blast
    have thread: "thread = thread_list_of (py_strip sec)" using accepted(3) th by simp
    have 1: "\<forall>seg \<in> set thread. seg \<noteq> [] \<and> (\<exists>ch \<in> set seg. \<not> py_isspace ch)"
      using thread thread_list_of_nonblank by blast
    have 2: "(\<forall>ch \<in> set sec. py_isspace ch) \<longrightarrow> thread = []"
      using thread thread_list_of_blank by simp
    have 3: "response_text \<noteq> None" using accepted(3) by simp
    show ?thesis using 1 2 3 c sec thread accepted(1) by blast
  qed
qed

theorem thread_has_no_blank_segment_witness:
  "generate_quote_tweet quote_answer_example 3 =
     Inr (Some (lit ''hm''), Some (lit ''bork''), [lit ''one'', lit ''two''])
   \<and> lit ''one'' \<noteq> [] \<and> lit ''two'' \<noteq> []
   \<and> (\<exists>ch. ch \<in> set (lit ''one'') \<and> \<not> py_isspace ch)
   \<and> (\<exists>ch. ch \<in> set (lit ''two'') \<and> \<not> py_isspace ch)"
  using generate_quote_tweet_example
    thread_has_no_blank_segment
      [of quote_answer_example 3 "Some (lit ''hm'')" "Some (lit ''bork'')"
          "[lit ''one'', lit ''two'']"]
  by (simp add: Bex_def)


end
